theory Spec2Isabelle
  imports Main "HOL-Library.Word" "HOL-Library.Char_ord" "HOL-Library.List_Lexorder"
begin

section \<open>Data model (playlist\_sync/models.py)\<close>

text \<open>
  \<^verbatim>\<open>ServiceType\<close> is a closed string enumeration; \<open>service_value\<close> is the member's
  \<^verbatim>\<open>.value\<close> and \<open>ServiceType_of\<close> is the constructor call \<^verbatim>\<open>ServiceType(s)\<close>, which
  raises \<^verbatim>\<open>ValueError\<close> for a string that is no member's value.
\<close>

datatype ServiceType = SPOTIFY | APPLE_MUSIC | YOUTUBE_MUSIC

datatype error =
    KeyError string
  | ValueError string
  | AttributeError
  | TypeError
  | IllTyped
  | ConnectorError string

fun service_value :: "ServiceType \<Rightarrow> string" where
  "service_value SPOTIFY = ''spotify''"
| "service_value APPLE_MUSIC = ''apple_music''"
| "service_value YOUTUBE_MUSIC = ''youtube_music''"

definition ServiceType_of :: "string \<Rightarrow> error + ServiceType" where
  "ServiceType_of s =
     (if s = ''spotify'' then Inr SPOTIFY
      else if s = ''apple_music'' then Inr APPLE_MUSIC
      else if s = ''youtube_music'' then Inr YOUTUBE_MUSIC
      else Inl (ValueError s))"

text \<open>
  A \<^verbatim>\<open>Track\<close>. The field \<^verbatim>\<open>id\<close> is called \<open>track_id\<close> here (\<open>id\<close> is the identity
  function of HOL). Strings are lists of 8-bit characters.
\<close>

record Track =
  track_id :: string
  title :: string
  artists :: "string list"
  album :: "string option"
  isrc :: "string option"
  duration_ms :: "int option"

text \<open>\<^verbatim>\<open>sep.join(xs)\<close>.\<close>

fun join :: "string \<Rightarrow> string list \<Rightarrow> string" where
  "join sep [] = []"
| "join sep [x] = x"
| "join sep (x # y # ys) = x @ sep @ join sep (y # ys)"



section \<open>JSON values and the State Store (playlist\_sync/storage.py)\<close>

text \<open>
  The values the store holds: what \<^verbatim>\<open>json.loads\<close> returns. A Python \<^verbatim>\<open>dict\<close> is an
  association list in insertion order (its keys are distinct).
\<close>

datatype json =
    JNull
  | JBool bool
  | JNum int
  | JStr string
  | JList "json list"
  | JObj "(string \<times> json) list"

text \<open>Python truthiness of a JSON value, as used by \<^verbatim>\<open>x or {}\<close>.\<close>

fun truthy :: "json \<Rightarrow> bool" where
  "truthy JNull = False"
| "truthy (JBool b) = b"
| "truthy (JNum n) = (n \<noteq> 0)"
| "truthy (JStr s) = (s \<noteq> [])"
| "truthy (JList xs) = (xs \<noteq> [])"
| "truthy (JObj kvs) = (kvs \<noteq> [])"

text \<open>
  What a value becomes when it is written with \<^verbatim>\<open>json.dumps(..., sort_keys=True)\<close> and read
  back with \<^verbatim>\<open>json.loads\<close>: every object has its items sorted by key, and nothing else
  changes.
\<close>

fun json_roundtrip :: "json \<Rightarrow> json" where
  "json_roundtrip (JList xs) = JList (map json_roundtrip xs)"
| "json_roundtrip (JObj kvs) =
     JObj (sort_key fst (map (\<lambda>kv. (fst kv, json_roundtrip (snd kv))) kvs))"
| "json_roundtrip v = v"

text \<open>
  The file of \<^verbatim>\<open>JSONStorage\<close>, as the dictionary \<^verbatim>\<open>_read\<close> returns.
  \<^verbatim>\<open>
  async def get(self, key, default=None):
      data = await self._read()
      return data.get(key, default)

  async def set(self, key, value):
      data = await self._read()
      data[key] = value
      await self._write(data)      # json.dumps(payload, indent=2, sort_keys=True)
  \<close>
  \<open>storage_set\<close> rewrites the whole file, so every stored value goes through
  \<open>json_roundtrip\<close>.
\<close>

type_synonym storage = "string \<Rightarrow> json option"

definition storage_get :: "storage \<Rightarrow> string \<Rightarrow> json \<Rightarrow> json" where
  "storage_get data key dflt = (case data key of None \<Rightarrow> dflt | Some v \<Rightarrow> v)"

definition storage_set :: "storage \<Rightarrow> string \<Rightarrow> json \<Rightarrow> storage" where
  "storage_set data key v = (\<lambda>k. map_option json_roundtrip ((data(key \<mapsto> v)) k))"

section \<open>Sync groups and their registry (playlist\_sync/sync.py)\<close>

text \<open>
  A \<^verbatim>\<open>SyncGroup\<close>; the field \<^verbatim>\<open>id\<close> is called \<open>group_id\<close>. The dictionary \<^verbatim>\<open>playlists\<close> is
  an association list in insertion order: \<^verbatim>\<open>_sync_targets\<close> iterates over it.
\<close>

record SyncGroup =
  group_id :: string
  name :: string
  primary_service :: ServiceType
  playlists :: "(ServiceType \<times> string) list"

text \<open>
  \<^verbatim>\<open>
  def to_dict(self):
      return {"id": self.id, "name": self.name,
              "primary_service": self.primary_service.value,
              "playlists": {service.value: playlist_id
                            for service, playlist_id in self.playlists.items()}}
  \<close>
\<close>

definition to_dict :: "SyncGroup \<Rightarrow> json" where
  "to_dict g =
     JObj [(''id'', JStr (group_id g)),
           (''name'', JStr (name g)),
           (''primary_service'', JStr (service_value (primary_service g))),
           (''playlists'',
              JObj (map (\<lambda>(service, playlist_id). (service_value service, JStr playlist_id))
                        (playlists g)))]"

text \<open>
  \<^verbatim>\<open>
  def from_dict(cls, payload):
      playlists = {ServiceType(service): playlist_id
                   for service, playlist_id in (payload.get("playlists") or {}).items()}
      return cls(id=payload["id"], name=payload["name"],
                 primary_service=ServiceType(payload["primary_service"]),
                 playlists=playlists)
  \<close>
  The order of evaluation, and so the exception raised first, is the source's. Python
  would store a value of any type under \<^verbatim>\<open>id\<close>, \<^verbatim>\<open>name\<close> or as a playlist identifier; the
  record holds strings, so a stored value of another type is the error \<open>IllTyped\<close>.
\<close>

definition payload_playlists :: "(string \<times> json) list \<Rightarrow> error + (string \<times> json) list" where
  "payload_playlists kvs =
     (case map_of kvs ''playlists'' of
        None \<Rightarrow> Inr []
      | Some v \<Rightarrow>
          if \<not> truthy v then Inr []
          else (case v of JObj items \<Rightarrow> Inr items | _ \<Rightarrow> Inl AttributeError))"

fun parse_playlists :: "(string \<times> json) list \<Rightarrow> error + (ServiceType \<times> string) list" where
  "parse_playlists [] = Inr []"
| "parse_playlists ((service, playlist_id) # rest) =
     (case ServiceType_of service of
        Inl e \<Rightarrow> Inl e
      | Inr s \<Rightarrow>
          (case playlist_id of
             JStr p \<Rightarrow>
               (case parse_playlists rest of
                  Inl e \<Rightarrow> Inl e
                | Inr ps \<Rightarrow> Inr ((s, p) # ps))
           | _ \<Rightarrow> Inl IllTyped))"

definition payload_str :: "(string \<times> json) list \<Rightarrow> string \<Rightarrow> error + string" where
  "payload_str kvs key =
     (case map_of kvs key of
        None \<Rightarrow> Inl (KeyError key)
      | Some (JStr s) \<Rightarrow> Inr s
      | Some _ \<Rightarrow> Inl IllTyped)"

definition from_dict :: "json \<Rightarrow> error + SyncGroup" where
  "from_dict payload =
     (case payload of
        JObj kvs \<Rightarrow>
          (case payload_playlists kvs of
             Inl e \<Rightarrow> Inl e
           | Inr items \<Rightarrow>
          (case parse_playlists items of
             Inl e \<Rightarrow> Inl e
           | Inr ps \<Rightarrow>
          (case payload_str kvs ''id'' of
             Inl e \<Rightarrow> Inl e
           | Inr i \<Rightarrow>
          (case payload_str kvs ''name'' of
             Inl e \<Rightarrow> Inl e
           | Inr n \<Rightarrow>
          (case payload_str kvs ''primary_service'' of
             Inl e \<Rightarrow> Inl e
           | Inr p \<Rightarrow>
          (case ServiceType_of p of
             Inl e \<Rightarrow> Inl e
           | Inr s \<Rightarrow>
               Inr \<lparr>group_id = i, name = n, primary_service = s, playlists = ps\<rparr>))))))
      | _ \<Rightarrow> Inl AttributeError)"

text \<open>
  \<^verbatim>\<open>
  async def load_groups(self):
      raw = await self.storage.get("sync_groups", default=[])
      groups = [SyncGroup.from_dict(item) for item in raw]
      return groups

  async def save_groups(self, groups):
      payload = [group.to_dict() for group in groups]
      await self.storage.set("sync_groups", payload)
  \<close>
  Iterating over a stored value that is no list: a dictionary yields its keys and a
  string its characters (\<^verbatim>\<open>from_dict\<close> then fails on the first one); \<^verbatim>\<open>None\<close>, a number or
  a truth value is not iterable.
\<close>

fun from_dict_all :: "json list \<Rightarrow> error + SyncGroup list" where
  "from_dict_all [] = Inr []"
| "from_dict_all (item # items) =
     (case from_dict item of
        Inl e \<Rightarrow> Inl e
      | Inr g \<Rightarrow>
          (case from_dict_all items of
             Inl e \<Rightarrow> Inl e
           | Inr gs \<Rightarrow> Inr (g # gs)))"

fun iterate :: "json \<Rightarrow> error + json list" where
  "iterate (JList xs) = Inr xs"
| "iterate (JObj kvs) = Inr (map (\<lambda>kv. JStr (fst kv)) kvs)"
| "iterate (JStr s) = Inr (map (\<lambda>c. JStr [c]) s)"
| "iterate v = Inl TypeError"

definition load_groups :: "storage \<Rightarrow> error + SyncGroup list" where
  "load_groups data =
     (case iterate (storage_get data ''sync_groups'' (JList [])) of
        Inl e \<Rightarrow> Inl e
      | Inr raw \<Rightarrow> from_dict_all raw)"

definition save_groups :: "storage \<Rightarrow> SyncGroup list \<Rightarrow> storage" where
  "save_groups data groups = storage_set data ''sync_groups'' (JList (map to_dict groups))"

text \<open>
  \<^verbatim>\<open>
  async def update_group(self, group_id, playlists):
      groups = await self.load_groups()
      for idx, group in enumerate(groups):
          if group.id == group_id:
              group.playlists = playlists
              groups[idx] = group
              await self.save_groups(groups)
              return group
      return None
  \<close>
  \<open>update_loop\<close> is the \<^verbatim>\<open>for\<close> loop: it returns the index and the changed group of the
  first match. \<open>update_group\<close> returns the result (\<open>None\<close> is Python's \<^verbatim>\<open>None\<close>) and the
  file, which is written only when a group matched.
\<close>

fun update_loop :: "string \<Rightarrow> (ServiceType \<times> string) list \<Rightarrow> nat \<Rightarrow> SyncGroup list
    \<Rightarrow> (nat \<times> SyncGroup) option" where
  "update_loop gid ps idx [] = None"
| "update_loop gid ps idx (g # rest) =
     (if group_id g = gid then Some (idx, g\<lparr>playlists := ps\<rparr>)
      else update_loop gid ps (Suc idx) rest)"

definition update_group :: "storage \<Rightarrow> string \<Rightarrow> (ServiceType \<times> string) list
    \<Rightarrow> (error + SyncGroup option) \<times> storage" where
  "update_group data gid ps =
     (case load_groups data of
        Inl e \<Rightarrow> (Inl e, data)
      | Inr groups \<Rightarrow>
          (case update_loop gid ps 0 groups of
             None \<Rightarrow> (Inr None, data)
           | Some (idx, g) \<Rightarrow> (Inr (Some g), save_groups data (groups[idx := g]))))"

section \<open>The track-list digest\<close>

text \<open>
  The text \<^verbatim>\<open>json.dumps(payload, sort_keys=True)\<close> produces (default separators, ASCII
  output). \<open>CHR 0x22\<close> is the double quote and \<open>CHR 0x5C\<close> the backslash.
\<close>

definition hex_digit :: "nat \<Rightarrow> char" where
  "hex_digit n = ''0123456789abcdef'' ! (n mod 16)"

definition escape_char :: "char \<Rightarrow> string" where
  "escape_char c =
     (if c = CHR 0x22 then [CHR 0x5C, CHR 0x22]
      else if c = CHR 0x5C then [CHR 0x5C, CHR 0x5C]
      else if c = CHR 0x0A then [CHR 0x5C, CHR ''n'']
      else if c = CHR 0x0D then [CHR 0x5C, CHR ''r'']
      else if c = CHR 0x09 then [CHR 0x5C, CHR ''t'']
      else if c = CHR 0x08 then [CHR 0x5C, CHR ''b'']
      else if c = CHR 0x0C then [CHR 0x5C, CHR ''f'']
      else if 32 \<le> (of_char c :: nat) \<and> (of_char c :: nat) \<le> 126 then [c]
      else [CHR 0x5C, CHR ''u'', CHR ''0'', CHR ''0'',
            hex_digit ((of_char c :: nat) div 16), hex_digit (of_char c :: nat)])"

definition quote :: "string \<Rightarrow> string" where
  "quote s = [CHR 0x22] @ concat (map escape_char s) @ [CHR 0x22]"

fun digits :: "nat \<Rightarrow> string" where
  "digits n = (if n < 10 then [hex_digit n] else digits (n div 10) @ [hex_digit (n mod 10)])"

definition show_int :: "int \<Rightarrow> string" where
  "show_int i = (if i < 0 then ''-'' @ digits (nat (- i)) else digits (nat i))"

fun json_text :: "json \<Rightarrow> string" where
  "json_text JNull = ''null''"
| "json_text (JBool b) = (if b then ''true'' else ''false'')"
| "json_text (JNum n) = show_int n"
| "json_text (JStr s) = quote s"
| "json_text (JList xs) = ''['' @ join '', '' (map json_text xs) @ '']''"
| "json_text (JObj kvs) =
     ''{'' @ join '', '' (map (\<lambda>kv. quote (fst kv) @ '': '' @ json_text (snd kv)) kvs) @ ''}''"

definition json_dumps :: "json \<Rightarrow> string" where
  "json_dumps v = json_text (json_roundtrip v)"

text \<open>
  \<^verbatim>\<open>
  def _tracks_digest(tracks):
      payload = [{"id": track.id, "title": track.title, "artists": track.artists,
                  "album": track.album, "isrc": track.isrc} for track in tracks]
      raw = json.dumps(payload, sort_keys=True).encode("utf-8")
      return hashlib.sha256(raw).hexdigest()
  \<close>
  \<^verbatim>\<open>hashlib.sha256\<close> is not code of the repository: it is the parameter \<open>sha256\<close>, a
  function from the serialized text to a 256-bit word. \<open>hexdigest\<close> writes the word as
  64 lowercase hexadecimal digits. The function is called \<open>tracks_digest\<close> (a name
  cannot begin with an underscore).
\<close>

definition json_opt :: "string option \<Rightarrow> json" where
  "json_opt x = (case x of None \<Rightarrow> JNull | Some s \<Rightarrow> JStr s)"

definition track_payload :: "Track \<Rightarrow> json" where
  "track_payload track =
     JObj [(''id'', JStr (track_id track)),
           (''title'', JStr (title track)),
           (''artists'', JList (map JStr (artists track))),
           (''album'', json_opt (album track)),
           (''isrc'', json_opt (isrc track))]"

definition tracks_payload :: "Track list \<Rightarrow> json" where
  "tracks_payload tracks = JList (map track_payload tracks)"

definition hexdigest :: "256 word \<Rightarrow> string" where
  "hexdigest w = map (\<lambda>i. hex_digit (unat (drop_bit (4 * (63 - i)) w))) [0..<64]"

definition tracks_digest :: "(string \<Rightarrow> 256 word) \<Rightarrow> Track list \<Rightarrow> string" where
  "tracks_digest sha256 tracks = hexdigest (sha256 (json_dumps (tracks_payload tracks)))"

section \<open>Connectors and the reconciliation of one group\<close>

text \<open>
  The engine sees a service only through the \<^verbatim>\<open>Connector\<close> contract. A connector is the
  answers its calls give: a value, or the exception the call raises (\<open>Inl\<close>). The
  registered connectors are a map from the service tag (\<^verbatim>\<open>self.connectors.get(service)\<close>).
\<close>

record connector =
  token_ready :: "error + bool"
  list_tracks :: "string \<Rightarrow> error + Track list"
  search_track :: "Track \<Rightarrow> error + Track option"
  replace_tracks :: "string \<Rightarrow> Track list \<Rightarrow> error + unit"

type_synonym connectors = "ServiceType \<Rightarrow> connector option"

text \<open>
  The calls the engine makes on its collaborators are recorded, in order, in a trace;
  \<open>world\<close> is the file of the State Store together with that trace.
\<close>

datatype event =
    TokenReady ServiceType
  | ListTracks ServiceType string
  | SearchTrack ServiceType Track
  | ReplaceTracks ServiceType string "Track list"
  | StoreGet string
  | StoreSet string json

record world =
  store :: storage
  trace :: "event list"

definition emit :: "event \<Rightarrow> world \<Rightarrow> world" where
  "emit e w = w\<lparr>trace := trace w @ [e]\<rparr>"

text \<open>
  The inner loop of \<^verbatim>\<open>_sync_targets\<close>:
  \<^verbatim>\<open>
  mapped_tracks = []
  for track in source_tracks:
      matched = await connector.search_track(track)
      if matched:
          mapped_tracks.append(matched)
  \<close>
\<close>

fun search_all :: "ServiceType \<Rightarrow> connector \<Rightarrow> Track list \<Rightarrow> Track list \<Rightarrow> world
    \<Rightarrow> (error + Track list) \<times> world" where
  "search_all service c [] mapped_tracks w = (Inr mapped_tracks, w)"
| "search_all service c (track # rest) mapped_tracks w =
     (case search_track c track of
        Inl e \<Rightarrow> (Inl e, emit (SearchTrack service track) w)
      | Inr matched \<Rightarrow>
          search_all service c rest
            (case matched of None \<Rightarrow> mapped_tracks | Some m \<Rightarrow> mapped_tracks @ [m])
            (emit (SearchTrack service track) w))"

text \<open>
  The body of the loop over \<^verbatim>\<open>group.playlists.items()\<close>:
  \<^verbatim>\<open>
  if service == primary_service: continue
  connector = self.connectors.get(service)
  if not connector: continue
  if not await connector.token_ready(): continue
  if not source_tracks:
      await connector.replace_tracks(playlist_id, [])
      continue
  mapped_tracks = ...            # the inner loop
  await connector.replace_tracks(playlist_id, mapped_tracks)
  \<close>
\<close>

definition sync_target :: "connectors \<Rightarrow> ServiceType \<Rightarrow> Track list \<Rightarrow> ServiceType \<times> string
    \<Rightarrow> world \<Rightarrow> (error + unit) \<times> world" where
  "sync_target conns primary source_tracks item w =
     (case item of (service, playlist_id) \<Rightarrow>
        if service = primary then (Inr (), w)
        else (case conns service of
          None \<Rightarrow> (Inr (), w)
        | Some c \<Rightarrow>
            (case token_ready c of
               Inl e \<Rightarrow> (Inl e, emit (TokenReady service) w)
             | Inr ready \<Rightarrow>
                 if \<not> ready then (Inr (), emit (TokenReady service) w)
                 else if source_tracks = [] then
                   (replace_tracks c playlist_id [],
                    emit (ReplaceTracks service playlist_id []) (emit (TokenReady service) w))
                 else
                   (case search_all service c source_tracks [] (emit (TokenReady service) w) of
                      (Inl e, w') \<Rightarrow> (Inl e, w')
                    | (Inr mapped_tracks, w') \<Rightarrow>
                        (replace_tracks c playlist_id mapped_tracks,
                         emit (ReplaceTracks service playlist_id mapped_tracks) w')))))"

fun sync_items :: "connectors \<Rightarrow> ServiceType \<Rightarrow> Track list \<Rightarrow> (ServiceType \<times> string) list
    \<Rightarrow> world \<Rightarrow> (error + unit) \<times> world" where
  "sync_items conns primary source_tracks [] w = (Inr (), w)"
| "sync_items conns primary source_tracks (item # rest) w =
     (case sync_target conns primary source_tracks item w of
        (Inl e, w') \<Rightarrow> (Inl e, w')
      | (Inr u, w') \<Rightarrow> sync_items conns primary source_tracks rest w')"

definition sync_targets :: "connectors \<Rightarrow> SyncGroup \<Rightarrow> Track list \<Rightarrow> world
    \<Rightarrow> (error + unit) \<times> world" where
  "sync_targets conns g source_tracks w =
     sync_items conns (primary_service g) source_tracks (playlists g) w"

text \<open>
  \<^verbatim>\<open>
  async def _sync_group(self, group):
      primary_connector = self.connectors.get(group.primary_service)
      if not primary_connector: return
      if not await primary_connector.token_ready(): return
      source_playlist_id = group.playlists.get(group.primary_service)
      if not source_playlist_id: return
      source_tracks = await primary_connector.list_tracks(source_playlist_id)
      snapshot_key = f"sync_snapshot::{group.id}"
      digest = self._tracks_digest(source_tracks)
      previous = await self.storage.get(snapshot_key)
      if previous == digest: return
      await self._sync_targets(group, source_tracks)
      await self.storage.set(snapshot_key, digest)
  \<close>
\<close>

text \<open>
  \<open>compare_and_sync\<close> is \<^verbatim>\<open>_sync_group\<close> from the line that builds the snapshot key to its
  end; \<open>sync_group\<close> is the whole function.
\<close>

definition snapshot_key :: "SyncGroup \<Rightarrow> string" where
  "snapshot_key g = ''sync_snapshot::'' @ group_id g"

definition compare_and_sync :: "(string \<Rightarrow> 256 word) \<Rightarrow> connectors \<Rightarrow> SyncGroup
    \<Rightarrow> Track list \<Rightarrow> world \<Rightarrow> (error + unit) \<times> world" where
  "compare_and_sync sha256 conns g source_tracks w =
     (let digest = tracks_digest sha256 source_tracks;
          previous = storage_get (store w) (snapshot_key g) JNull;
          w1 = emit (StoreGet (snapshot_key g)) w
      in if previous = JStr digest then (Inr (), w1)
         else (case sync_targets conns g source_tracks w1 of
                 (Inl e, w2) \<Rightarrow> (Inl e, w2)
               | (Inr u, w2) \<Rightarrow>
                   (Inr (),
                    emit (StoreSet (snapshot_key g) (JStr digest))
                      (w2\<lparr>store := storage_set (store w2) (snapshot_key g) (JStr digest)\<rparr>))))"

definition sync_group :: "(string \<Rightarrow> 256 word) \<Rightarrow> connectors \<Rightarrow> SyncGroup \<Rightarrow> world
    \<Rightarrow> (error + unit) \<times> world" where
  "sync_group sha256 conns g w =
     (case conns (primary_service g) of
        None \<Rightarrow> (Inr (), w)
      | Some primary_connector \<Rightarrow>
          (case token_ready primary_connector of
             Inl e \<Rightarrow> (Inl e, emit (TokenReady (primary_service g)) w)
           | Inr ready \<Rightarrow>
               if \<not> ready then (Inr (), emit (TokenReady (primary_service g)) w)
               else (case map_of (playlists g) (primary_service g) of
                 None \<Rightarrow> (Inr (), emit (TokenReady (primary_service g)) w)
               | Some source_playlist_id \<Rightarrow>
                   if source_playlist_id = [] then
                     (Inr (), emit (TokenReady (primary_service g)) w)
                   else
                     (case list_tracks primary_connector source_playlist_id of
                        Inl e \<Rightarrow>
                          (Inl e,
                           emit (ListTracks (primary_service g) source_playlist_id)
                             (emit (TokenReady (primary_service g)) w))
                      | Inr source_tracks \<Rightarrow>
                          compare_and_sync sha256 conns g source_tracks
                            (emit (ListTracks (primary_service g) source_playlist_id)
                               (emit (TokenReady (primary_service g)) w))))))"

section \<open>One sweep and the scheduler loop\<close>

text \<open>
  \<^verbatim>\<open>
  async def run_once(self):
      groups = await self.load_groups()
      for group in groups:
          await self._sync_group(group)
  \<close>
\<close>

fun sync_all :: "(string \<Rightarrow> 256 word) \<Rightarrow> connectors \<Rightarrow> SyncGroup list \<Rightarrow> world
    \<Rightarrow> (error + unit) \<times> world" where
  "sync_all sha256 conns [] w = (Inr (), w)"
| "sync_all sha256 conns (g # rest) w =
     (case sync_group sha256 conns g w of
        (Inl e, w') \<Rightarrow> (Inl e, w')
      | (Inr u, w') \<Rightarrow> sync_all sha256 conns rest w')"

definition run_once :: "(string \<Rightarrow> 256 word) \<Rightarrow> connectors \<Rightarrow> world
    \<Rightarrow> (error + unit) \<times> world" where
  "run_once sha256 conns w =
     (case load_groups (store w) of
        Inl e \<Rightarrow> (Inl e, emit (StoreGet ''sync_groups'') w)
      | Inr groups \<Rightarrow> sync_all sha256 conns groups (emit (StoreGet ''sync_groups'') w))"

text \<open>
  \<^verbatim>\<open>
  async def stop(self):
      self._stop_event.set()

  async def run(self, interval_seconds):
      while not self._stop_event.is_set():
          async with self._sync_lock:
              await self.run_once()
          try:
              await asyncio.wait_for(self._stop_event.wait(), timeout=interval_seconds)
          except asyncio.TimeoutError:
              continue
  \<close>
  The loop is a state machine. Its control points are the test of the \<^verbatim>\<open>while\<close>
  (\<open>AtCheck\<close>), the sweep under the lock (\<open>InPass\<close>), the wait for the stop event
  (\<open>InWait\<close>), and the two ends: \<open>Exited\<close> when the test fails, \<open>Crashed\<close> when the sweep
  raises, since \<^verbatim>\<open>run\<close> catches only the timeout of the wait. \<^verbatim>\<open>run\<close> is the only user of
  \<^verbatim>\<open>_sync_lock\<close>, so the lock is free at the test and the sweep begins in the same
  step. The event is never cleared. A schedule lists what happens next: \<open>Stop\<close> is a call
  of \<^verbatim>\<open>stop()\<close> by another task, \<open>Advance\<close> lets the loop run to its next control point
  (from \<open>InWait\<close>: the event is set, or the wait times out and the loop continues).
  \<open>started\<close> counts the sweeps begun and \<open>finished\<close> the sweeps that returned.
\<close>

datatype pc = AtCheck | InPass | InWait | Exited | Crashed error

record loop =
  at :: pc
  stop_event :: bool
  started :: nat
  finished :: nat
  env :: world

datatype action = Stop | Advance

definition loop_step :: "(string \<Rightarrow> 256 word) \<Rightarrow> connectors \<Rightarrow> loop \<Rightarrow> action \<Rightarrow> loop" where
  "loop_step sha256 conns l a =
     (case a of
        Stop \<Rightarrow> l\<lparr>stop_event := True\<rparr>
      | Advance \<Rightarrow>
          (case at l of
             AtCheck \<Rightarrow>
               if stop_event l then l\<lparr>at := Exited\<rparr>
               else l\<lparr>at := InPass, started := Suc (started l)\<rparr>
           | InPass \<Rightarrow>
               (case run_once sha256 conns (env l) of
                  (Inl e, w') \<Rightarrow> l\<lparr>at := Crashed e, env := w'\<rparr>
                | (Inr u, w') \<Rightarrow> l\<lparr>at := InWait, finished := Suc (finished l), env := w'\<rparr>)
           | InWait \<Rightarrow> l\<lparr>at := AtCheck\<rparr>
           | Exited \<Rightarrow> l
           | Crashed e \<Rightarrow> l))"

definition run :: "(string \<Rightarrow> 256 word) \<Rightarrow> connectors \<Rightarrow> action list \<Rightarrow> loop \<Rightarrow> loop" where
  "run sha256 conns schedule l = foldl (loop_step sha256 conns) l schedule"

definition start :: "world \<Rightarrow> loop" where
  "start w = \<lparr>at = AtCheck, stop_event = False, started = 0, finished = 0, env = w\<rparr>"

section \<open>Vocabulary of the properties\<close>

text \<open>
  What a group is after it went through the file: \<^verbatim>\<open>sort_keys=True\<close> orders the items of
  its \<^verbatim>\<open>playlists\<close> dictionary by the service's value. \<open>same_group\<close> is the equality of
  the dataclass: field by field, and two dictionaries are equal when they map the same
  keys to the same values, in any order.
\<close>

definition sorted_playlists :: "(ServiceType \<times> string) list \<Rightarrow> (ServiceType \<times> string) list" where
  "sorted_playlists ps = sort_key (\<lambda>item. service_value (fst item)) ps"

definition stored_group :: "SyncGroup \<Rightarrow> SyncGroup" where
  "stored_group g = g\<lparr>playlists := sorted_playlists (playlists g)\<rparr>"

definition same_group :: "SyncGroup \<Rightarrow> SyncGroup \<Rightarrow> bool" where
  "same_group g h \<longleftrightarrow>
     group_id g = group_id h \<and> name g = name h \<and> primary_service g = primary_service h \<and>
     map_of (playlists g) = map_of (playlists h)"

text \<open>The calls a run added to the trace, and among them the writes.\<close>

definition new_events :: "world \<Rightarrow> world \<Rightarrow> event list" where
  "new_events w w' = drop (length (trace w)) (trace w')"

fun is_replace :: "event \<Rightarrow> bool" where
  "is_replace (ReplaceTracks service playlist_id tracks) = True"
| "is_replace e = False"

fun is_store_write :: "event \<Rightarrow> bool" where
  "is_store_write (StoreSet key v) = True"
| "is_store_write e = False"

fun is_connector_io :: "event \<Rightarrow> bool" where
  "is_connector_io (ListTracks service playlist_id) = True"
| "is_connector_io (SearchTrack service track) = True"
| "is_connector_io (ReplaceTracks service playlist_id tracks) = True"
| "is_connector_io e = False"

definition replace_calls :: "event list \<Rightarrow> event list" where
  "replace_calls evs = filter is_replace evs"

definition store_writes :: "event list \<Rightarrow> event list" where
  "store_writes evs = filter is_store_write evs"

text \<open>
  A target is eligible when it is not the primary service, a connector is registered
  for it and the connector's \<^verbatim>\<open>token_ready()\<close> returns true. \<open>matched_tracks\<close> are the
  results of \<^verbatim>\<open>search_track\<close> for the source tracks, in source order, without the tracks
  that have no match.
\<close>

definition eligible :: "connectors \<Rightarrow> ServiceType \<Rightarrow> ServiceType \<times> string \<Rightarrow> bool" where
  "eligible conns primary item \<longleftrightarrow>
     fst item \<noteq> primary \<and>
     (case conns (fst item) of None \<Rightarrow> False | Some c \<Rightarrow> token_ready c = Inr True)"

definition matched_tracks :: "connector \<Rightarrow> Track list \<Rightarrow> Track list" where
  "matched_tracks c source_tracks =
     List.map_filter (\<lambda>track. case search_track c track of Inl e \<Rightarrow> None | Inr m \<Rightarrow> m)
       source_tracks"

definition expected_call :: "connectors \<Rightarrow> Track list \<Rightarrow> ServiceType \<times> string \<Rightarrow> event" where
  "expected_call conns source_tracks item =
     ReplaceTracks (fst item) (snd item)
       (case conns (fst item) of None \<Rightarrow> [] | Some c \<Rightarrow> matched_tracks c source_tracks)"

text \<open>The fields of a track that enter the digest.\<close>

definition digest_fields :: "Track \<Rightarrow> string \<times> string \<times> string list \<times> string option \<times> string option" where
  "digest_fields t = (track_id t, title t, artists t, album t, isrc t)"

text \<open>
  The text of the record of one track in the output of \<^verbatim>\<open>json.dumps(..., sort_keys=True)\<close>,
  from the fields that enter the digest: the keys in the order of their names.
\<close>

definition fields_text :: "string \<times> string \<times> string list \<times> string option \<times> string option
    \<Rightarrow> string" where
  "fields_text f =
     (case f of (i, t, ars, al, isr) \<Rightarrow>
        ''{'' @ quote ''album'' @ '': '' @ json_text (json_opt al) @
        '', '' @ quote ''artists'' @ '': '' @ ''['' @ join '', '' (map quote ars) @ '']'' @
        '', '' @ quote ''id'' @ '': '' @ quote i @
        '', '' @ quote ''isrc'' @ '': '' @ json_text (json_opt isr) @
        '', '' @ quote ''title'' @ '': '' @ quote t @ ''}'')"

text \<open>
  The calls \<open>replace_tracks\<close> that a pass over the targets owes: one per eligible item of
  the mapping, in the order of the mapping. \<open>calls_on\<close> are the \<^verbatim>\<open>replace_tracks\<close> calls
  made on the connector of one service.
\<close>

definition expected_calls :: "connectors \<Rightarrow> ServiceType \<Rightarrow> Track list
    \<Rightarrow> (ServiceType \<times> string) list \<Rightarrow> event list" where
  "expected_calls conns primary source_tracks items =
     map (expected_call conns source_tracks) (filter (eligible conns primary) items)"

fun is_replace_on :: "ServiceType \<Rightarrow> event \<Rightarrow> bool" where
  "is_replace_on s (ReplaceTracks service playlist_id tracks) = (service = s)"
| "is_replace_on s e = False"

definition calls_on :: "ServiceType \<Rightarrow> event list \<Rightarrow> event list" where
  "calls_on s evs = filter (is_replace_on s) evs"

text \<open>
  The group gets as far as the comparison of digests: its primary connector is
  registered and ready, the mapping names a source playlist, and \<^verbatim>\<open>list_tracks\<close> returns
  the source tracks.
\<close>

definition fetches :: "connectors \<Rightarrow> SyncGroup \<Rightarrow> string \<Rightarrow> Track list \<Rightarrow> bool" where
  "fetches conns g source_playlist_id source_tracks \<longleftrightarrow>
     (case conns (primary_service g) of
        None \<Rightarrow> False
      | Some primary_connector \<Rightarrow>
          token_ready primary_connector = Inr True \<and>
          map_of (playlists g) (primary_service g) = Some source_playlist_id \<and>
          source_playlist_id \<noteq> [] \<and>
          list_tracks primary_connector source_playlist_id = Inr source_tracks)"

text \<open>
  Between the start of a sweep and its end the loop is at \<open>InPass\<close>, or it crashed there;
  everywhere else every sweep begun has returned.
\<close>

definition balanced :: "loop \<Rightarrow> bool" where
  "balanced l \<longleftrightarrow>
     (case at l of
        InPass \<Rightarrow> started l = Suc (finished l)
      | Crashed e \<Rightarrow> started l = Suc (finished l)
      | _ \<Rightarrow> started l = finished l)"

section \<open>Example inputs\<close>

text \<open>Concrete tracks, groups, connectors and stores, on which the properties are run.\<close>

definition song :: Track where
  "song = \<lparr>track_id = ''s1'', title = ''Song'', artists = [''Artist''], album = Some ''Album'',
            isrc = None, duration_ms = None\<rparr>"





definition mirror :: SyncGroup where
  "mirror = \<lparr>group_id = ''g1'', name = ''Mirror'', primary_service = SPOTIFY,
              playlists = [(APPLE_MUSIC, ''apple-1''), (SPOTIFY, ''spotify-1''),
                           (YOUTUBE_MUSIC, ''yt-1'')]\<rparr>"

definition second :: SyncGroup where
  "second = \<lparr>group_id = ''g2'', name = ''Second'', primary_service = SPOTIFY,
              playlists = [(SPOTIFY, ''spotify-2''), (YOUTUBE_MUSIC, ''yt-2'')]\<rparr>"

definition registry :: storage where
  "registry = save_groups Map.empty [mirror, second]"

text \<open>
  Connectors: Spotify holds the source playlist with the one track \<open>song\<close>; Apple Music
  finds a match for every track; YouTube Music finds none. \<open>apple_failing\<close> raises in
  \<^verbatim>\<open>replace_tracks\<close>, \<open>spotify_unlinked\<close> has no token yet.
\<close>

definition spotify :: connector where
  "spotify = \<lparr>token_ready = Inr True, list_tracks = (\<lambda>playlist_id. Inr [song]),
               search_track = (\<lambda>track. Inr None),
               replace_tracks = (\<lambda>playlist_id tracks. Inr ())\<rparr>"

definition apple :: connector where
  "apple = \<lparr>token_ready = Inr True, list_tracks = (\<lambda>playlist_id. Inr []),
             search_track = (\<lambda>track. Inr (Some (track\<lparr>track_id := ''a1''\<rparr>))),
             replace_tracks = (\<lambda>playlist_id tracks. Inr ())\<rparr>"

definition apple_failing :: connector where
  "apple_failing =
     apple\<lparr>replace_tracks := (\<lambda>playlist_id tracks. Inl (ConnectorError ''replace failed''))\<rparr>"

definition youtube :: connector where
  "youtube = \<lparr>token_ready = Inr True, list_tracks = (\<lambda>playlist_id. Inr []),
               search_track = (\<lambda>track. Inr None),
               replace_tracks = (\<lambda>playlist_id tracks. Inr ())\<rparr>"

definition spotify_unlinked :: connector where
  "spotify_unlinked = spotify\<lparr>token_ready := Inr False\<rparr>"

definition working :: connectors where
  "working = [SPOTIFY \<mapsto> spotify, APPLE_MUSIC \<mapsto> apple, YOUTUBE_MUSIC \<mapsto> youtube]"

definition failing :: connectors where
  "failing = [SPOTIFY \<mapsto> spotify, APPLE_MUSIC \<mapsto> apple_failing, YOUTUBE_MUSIC \<mapsto> youtube]"

definition unlinked :: connectors where
  "unlinked = [SPOTIFY \<mapsto> spotify_unlinked, APPLE_MUSIC \<mapsto> apple, YOUTUBE_MUSIC \<mapsto> youtube]"

text \<open>A stand-in for SHA-256 on the examples, and the world before the first sweep.\<close>

definition length_hash :: "string \<Rightarrow> 256 word" where
  "length_hash s = of_nat (length s)"

definition fresh :: world where
  "fresh = \<lparr>store = Map.empty, trace = []\<rparr>"

definition synced :: world where
  "synced = \<lparr>store = [snapshot_key mirror \<mapsto> JStr (tracks_digest length_hash [song])],
              trace = []\<rparr>"

text \<open>
  The world whose store holds the groups \<open>mirror\<close> and \<open>second\<close>, and two states of the
  scheduler loop over it: in the middle of its first sweep, and waiting after it.
\<close>

definition registered :: world where
  "registered = \<lparr>store = registry, trace = []\<rparr>"

definition in_pass :: loop where
  "in_pass = \<lparr>at = InPass, stop_event = False, started = 1, finished = 0, env = registered\<rparr>"

definition waiting :: loop where
  "waiting = \<lparr>at = InWait, stop_event = False, started = 1, finished = 1, env = registered\<rparr>"

text \<open>Track lists that differ from one another in the id of their one track.\<close>

definition numbered :: "nat \<Rightarrow> Track list" where
  "numbered n = [song\<lparr>track_id := replicate n (CHR ''x'')\<rparr>]"

section \<open>Properties\<close>

subsection \<open>Groups and the registry\<close>

lemma ServiceType_of_value: "ServiceType_of (service_value s) = Inr s"
  by (cases s) (simp_all add: ServiceType_of_def)

lemma parse_playlists_items:
  "parse_playlists (map (\<lambda>(service, playlist_id). (service_value service, JStr playlist_id)) ps)
     = Inr ps"
  by (induction ps) (auto simp: ServiceType_of_value)

lemma from_dict_to_dict: "from_dict (to_dict g) = Inr g"
  by (simp add: from_dict_def to_dict_def payload_playlists_def payload_str_def
      parse_playlists_items ServiceType_of_value)

lemma insort_items:
  "insort_key fst (service_value s, JStr p)
     (map (\<lambda>(service, playlist_id). (service_value service, JStr playlist_id)) ps)
   = map (\<lambda>(service, playlist_id). (service_value service, JStr playlist_id))
       (insort_key (\<lambda>item. service_value (fst item)) (s, p) ps)"
  by (induction ps) auto

lemma sort_items:
  "sort_key fst (map (\<lambda>(service, playlist_id). (service_value service, JStr playlist_id)) ps)
   = map (\<lambda>(service, playlist_id). (service_value service, JStr playlist_id))
       (sorted_playlists ps)"
  by (induction ps) (auto simp: insort_items sorted_playlists_def)

lemma roundtrip_items:
  "map (\<lambda>kv. (fst kv, json_roundtrip (snd kv)))
     (map (\<lambda>(service, playlist_id). (service_value service, JStr playlist_id)) ps)
   = map (\<lambda>(service, playlist_id). (service_value service, JStr playlist_id)) ps"
  by (induction ps) auto

lemma roundtrip_to_dict:
  "json_roundtrip (to_dict g) =
     JObj [(''id'', JStr (group_id g)),
           (''name'', JStr (name g)),
           (''playlists'',
              JObj (map (\<lambda>(service, playlist_id). (service_value service, JStr playlist_id))
                        (sorted_playlists (playlists g)))),
           (''primary_service'', JStr (service_value (primary_service g)))]"
  unfolding to_dict_def json_roundtrip.simps list.map fst_conv snd_conv roundtrip_items sort_items
  by simp

lemma from_dict_roundtrip: "from_dict (json_roundtrip (to_dict g)) = Inr (stored_group g)"
  by (simp add: roundtrip_to_dict from_dict_def payload_playlists_def payload_str_def
      parse_playlists_items ServiceType_of_value stored_group_def)

lemma from_dict_all_roundtrip:
  "from_dict_all (map (\<lambda>g. json_roundtrip (to_dict g)) gs) = Inr (map stored_group gs)"
  by (induction gs) (simp_all add: from_dict_roundtrip)

lemma load_save: "load_groups (save_groups data gs) = Inr (map stored_group gs)"
  by (simp add: load_groups_def save_groups_def storage_set_def storage_get_def
      from_dict_all_roundtrip comp_def)

lemma service_value_inj: "service_value a = service_value b \<longleftrightarrow> a = b"
  by (cases a; cases b) simp_all

lemma map_of_filter_key: "map_of xs k = map_of (filter (\<lambda>y. fst y = k) xs) k"
  by (induction xs) auto

lemma map_of_sorted_playlists: "map_of (sorted_playlists ps) = map_of ps"
proof
  fix k
  have "filter (\<lambda>y. fst y = k) (sorted_playlists ps) = filter (\<lambda>y. fst y = k) ps"
    using sort_key_stable [of "\<lambda>item. service_value (fst item)" "service_value k" ps]
    by (simp add: sorted_playlists_def service_value_inj)
  then show "map_of (sorted_playlists ps) k = map_of ps k"
    using map_of_filter_key [of "sorted_playlists ps" k] map_of_filter_key [of ps k] by simp
qed

lemma same_group_stored: "same_group (stored_group g) g"
  by (simp add: same_group_def stored_group_def map_of_sorted_playlists)

text \<open>
  Claim C10. Serializing a group with \<open>to_dict\<close> and parsing the result with \<open>from_dict\<close>
  gives the group back; the keys of \<open>playlists\<close> are service tags by their type. Saving
  a list of groups and loading it again gives, position by position, a group with the
  same id, name, primary service and playlist mapping: the file orders the mapping's
  items by key, which the equality of groups does not see.
\<close>

theorem sync_group_roundtrip:
  "from_dict (to_dict g) = Inr g \<and>
   load_groups (save_groups data gs) = Inr (map stored_group gs) \<and>
   list_all2 same_group (map stored_group gs) gs"
  by (simp add: from_dict_to_dict load_save list_all2_map1 same_group_stored list_all2_same)

lemma update_loop_None: "update_loop gid ps idx gs = None \<longleftrightarrow> gid \<notin> group_id ` set gs"
  by (induction gs arbitrary: idx) auto

lemma update_loop_Some:
  "update_loop gid ps idx gs = Some (j, g') \<Longrightarrow>
     \<exists>i<length gs. j = idx + i \<and> group_id (gs ! i) = gid \<and> (\<forall>k<i. group_id (gs ! k) \<noteq> gid)
        \<and> g' = (gs ! i)\<lparr>playlists := ps\<rparr>"
proof (induction gs arbitrary: idx)
  case Nil
  then show ?case by simp
next
  case (Cons g gs)
  show ?case
  proof (cases "group_id g = gid")
    case True
    with Cons.prems show ?thesis by (intro exI [of _ 0]) auto
  next
    case False
    with Cons.prems have "update_loop gid ps (Suc idx) gs = Some (j, g')" by simp
    from Cons.IH [OF this] obtain i where i: "i < length gs" "j = Suc idx + i"
      "group_id (gs ! i) = gid" "\<forall>k<i. group_id (gs ! k) \<noteq> gid" "g' = (gs ! i)\<lparr>playlists := ps\<rparr>"
      by blast
    show ?thesis
    proof (intro exI [of _ "Suc i"] conjI allI impI)
      fix k assume "k < Suc i"
      then show "group_id ((g # gs) ! k) \<noteq> gid"
        using False i(4) by (cases k) auto
    qed (use i in auto)
  qed
qed

text \<open>
  Claim C8. Let the store hold a group list. For a group id that occurs in it,
  \<open>update_group\<close> returns the (first) group with that id with its playlist mapping
  replaced and its id, name and primary service as they were; the list loaded from the
  store afterwards has that group at the same position and every other position holds
  the group it held before. For a group id that does not occur, it returns \<open>None\<close> and
  the store is the one it was.
\<close>

theorem update_group_frame:
  assumes "load_groups data = Inr groups"
  shows "(gid \<in> group_id ` set groups \<longrightarrow>
            (\<exists>i g' data' groups'.
               update_group data gid ps = (Inr (Some g'), data') \<and>
               i < length groups \<and> group_id (groups ! i) = gid \<and>
               playlists g' = ps \<and> group_id g' = gid \<and> name g' = name (groups ! i) \<and>
               primary_service g' = primary_service (groups ! i) \<and>
               load_groups data' = Inr groups' \<and> length groups' = length groups \<and>
               same_group (groups' ! i) g' \<and>
               (\<forall>j<length groups. j \<noteq> i \<longrightarrow> same_group (groups' ! j) (groups ! j)))) \<and>
         (gid \<notin> group_id ` set groups \<longrightarrow> update_group data gid ps = (Inr None, data))"
proof (intro conjI impI)
  assume "gid \<in> group_id ` set groups"
  then have "update_loop gid ps 0 groups \<noteq> None"
    by (simp add: update_loop_None)
  then obtain j g' where loop: "update_loop gid ps 0 groups = Some (j, g')"
    by auto
  from update_loop_Some [OF this] have j: "j < length groups" "group_id (groups ! j) = gid"
      "g' = (groups ! j)\<lparr>playlists := ps\<rparr>"
    by auto
  let ?data' = "save_groups data (groups[j := g'])"
  let ?groups' = "map stored_group (groups[j := g'])"
  have "update_group data gid ps = (Inr (Some g'), ?data')"
    by (simp add: update_group_def assms loop)
  moreover have "load_groups ?data' = Inr ?groups'"
    by (rule load_save)
  moreover have "same_group (?groups' ! j) g'"
    using j(1) by (simp add: same_group_stored)
  moreover have "\<forall>k<length groups. k \<noteq> j \<longrightarrow> same_group (?groups' ! k) (groups ! k)"
    by (simp add: same_group_stored)
  ultimately show "\<exists>i g' data' groups'.
               update_group data gid ps = (Inr (Some g'), data') \<and>
               i < length groups \<and> group_id (groups ! i) = gid \<and>
               playlists g' = ps \<and> group_id g' = gid \<and> name g' = name (groups ! i) \<and>
               primary_service g' = primary_service (groups ! i) \<and>
               load_groups data' = Inr groups' \<and> length groups' = length groups \<and>
               same_group (groups' ! i) g' \<and>
               (\<forall>j<length groups. j \<noteq> i \<longrightarrow> same_group (groups' ! j) (groups ! j))"
    using j by (intro exI [of _ j] exI [of _ g'] exI [of _ ?data'] exI [of _ ?groups']) simp
next
  assume "gid \<notin> group_id ` set groups"
  then have "update_loop gid ps 0 groups = None"
    by (simp add: update_loop_None)
  then show "update_group data gid ps = (Inr None, data)"
    by (simp add: update_group_def assms)
qed

text \<open>
  The store that holds the groups \<open>mirror\<close> and \<open>second\<close>: updating \<open>g2\<close>, which is there,
  and \<open>g9\<close>, which is not.
\<close>

theorem update_group_frame_witness:
  "load_groups registry = Inr (map stored_group [mirror, second]) \<and>
   ''g2'' \<in> group_id ` set (map stored_group [mirror, second]) \<and>
   (\<exists>g' data' groups'.
      update_group registry ''g2'' [(SPOTIFY, ''new'')] = (Inr (Some g'), data') \<and>
      playlists g' = [(SPOTIFY, ''new'')] \<and> group_id g' = ''g2'' \<and>
      load_groups data' = Inr groups' \<and> length groups' = 2) \<and>
   ''g9'' \<notin> group_id ` set (map stored_group [mirror, second]) \<and>
   update_group registry ''g9'' [(SPOTIFY, ''new'')] = (Inr None, registry)"
proof -
  have loaded: "load_groups registry = Inr (map stored_group [mirror, second])"
    unfolding registry_def by (rule load_save)
  have present: "''g2'' \<in> group_id ` set (map stored_group [mirror, second])"
    by (simp add: stored_group_def second_def)
  have absent: "''g9'' \<notin> group_id ` set (map stored_group [mirror, second])"
    by (simp add: stored_group_def second_def mirror_def)
  from update_group_frame [OF loaded, of "''g2''" "[(SPOTIFY, ''new'')]"] present
  have "\<exists>g' data' groups'.
      update_group registry ''g2'' [(SPOTIFY, ''new'')] = (Inr (Some g'), data') \<and>
      playlists g' = [(SPOTIFY, ''new'')] \<and> group_id g' = ''g2'' \<and>
      load_groups data' = Inr groups' \<and> length groups' = 2"
    by auto
  moreover from update_group_frame [OF loaded, of "''g9''" "[(SPOTIFY, ''new'')]"] absent
  have "update_group registry ''g9'' [(SPOTIFY, ''new'')] = (Inr None, registry)"
    by simp
  ultimately show ?thesis
    using loaded present absent by blast
qed

subsection \<open>The normalized signature\<close>








subsection \<open>The reconciliation of one group\<close>

lemma emit_eq: "emit e w = w\<lparr>trace := trace w @ [e]\<rparr>"
  by (simp add: emit_def)

lemma replace_calls_append [simp]: "replace_calls (xs @ ys) = replace_calls xs @ replace_calls ys"
  by (simp add: replace_calls_def)

lemma store_writes_append [simp]: "store_writes (xs @ ys) = store_writes xs @ store_writes ys"
  by (simp add: store_writes_def)

lemma replace_calls_simps [simp]:
  "replace_calls [] = []"
  "replace_calls (ReplaceTracks s p ts # evs) = ReplaceTracks s p ts # replace_calls evs"
  "replace_calls (TokenReady s # evs) = replace_calls evs"
  "replace_calls (ListTracks s p # evs) = replace_calls evs"
  "replace_calls (SearchTrack s t # evs) = replace_calls evs"
  "replace_calls (StoreGet k # evs) = replace_calls evs"
  "replace_calls (StoreSet k v # evs) = replace_calls evs"
  by (simp_all add: replace_calls_def)

lemma store_writes_simps [simp]:
  "store_writes [] = []"
  "store_writes (ReplaceTracks s p ts # evs) = store_writes evs"
  "store_writes (TokenReady s # evs) = store_writes evs"
  "store_writes (ListTracks s p # evs) = store_writes evs"
  "store_writes (SearchTrack s t # evs) = store_writes evs"
  "store_writes (StoreGet k # evs) = store_writes evs"
  "store_writes (StoreSet k v # evs) = StoreSet k v # store_writes evs"
  by (simp_all add: store_writes_def)

lemma new_events_extend [simp]: "new_events w (w\<lparr>trace := trace w @ evs\<rparr>) = evs"
  by (simp add: new_events_def)

lemma search_all_spec:
  "search_all service c ts acc w = (r, w') \<Longrightarrow>
     \<exists>evs. w' = w\<lparr>trace := trace w @ evs\<rparr> \<and> replace_calls evs = [] \<and> store_writes evs = [] \<and>
           (\<forall>mapped. r = Inr mapped \<longrightarrow> mapped = acc @ matched_tracks c ts)"
proof (induction ts arbitrary: acc w)
  case Nil
  then show ?case by (auto simp: matched_tracks_def intro: exI [of _ "[]"])
next
  case (Cons t ts)
  show ?case
  proof (cases "search_track c t")
    case (Inl e)
    with Cons.prems show ?thesis
      by (auto simp: emit_eq intro!: exI [of _ "[SearchTrack service t]"])
  next
    case (Inr m)
    let ?acc = "case m of None \<Rightarrow> acc | Some x \<Rightarrow> acc @ [x]"
    from Cons.prems Inr have "search_all service c ts ?acc (emit (SearchTrack service t) w) = (r, w')"
      by simp
    from Cons.IH [OF this] obtain evs where evs:
      "w' = (emit (SearchTrack service t) w)\<lparr>trace := trace (emit (SearchTrack service t) w) @ evs\<rparr>"
      "replace_calls evs = []" "store_writes evs = []"
      "\<forall>mapped. r = Inr mapped \<longrightarrow> mapped = ?acc @ matched_tracks c ts"
      by blast
    have "?acc @ matched_tracks c ts = acc @ matched_tracks c (t # ts)"
      using Inr by (cases m) (simp_all add: matched_tracks_def map_filter_simps)
    with evs show ?thesis
      by (intro exI [of _ "SearchTrack service t # evs"]) (simp add: emit_eq)
  qed
qed

lemma expected_calls_Nil [simp]: "expected_calls conns p src [] = []"
  by (simp add: expected_calls_def)

lemma expected_calls_Cons:
  "expected_calls conns p src (item # rest) =
     expected_calls conns p src [item] @ expected_calls conns p src rest"
  by (simp add: expected_calls_def)

lemma matched_tracks_Nil [simp]: "matched_tracks c [] = []"
  by (simp add: matched_tracks_def map_filter_simps)

lemma sync_target_spec:
  assumes "sync_target conns p src item w = (r, w')"
  shows "\<exists>evs. w' = w\<lparr>trace := trace w @ evs\<rparr> \<and> store_writes evs = [] \<and>
           (replace_calls evs = [] \<or> replace_calls evs = expected_calls conns p src [item]) \<and>
           (r = Inr () \<longrightarrow> replace_calls evs = expected_calls conns p src [item])"
proof -
  obtain service pid where item: "item = (service, pid)"
    by (cases item)
  let ?goal = "\<lambda>evs. w' = w\<lparr>trace := trace w @ evs\<rparr> \<and> store_writes evs = [] \<and>
           (replace_calls evs = [] \<or> replace_calls evs = expected_calls conns p src [item]) \<and>
           (r = Inr () \<longrightarrow> replace_calls evs = expected_calls conns p src [item])"
  consider (primary) "service = p"
    | (unregistered) "service \<noteq> p" "conns service = None"
    | (token_raises) c e where "service \<noteq> p" "conns service = Some c" "token_ready c = Inl e"
    | (not_ready) c where "service \<noteq> p" "conns service = Some c" "token_ready c = Inr False"
    | (ready) c where "service \<noteq> p" "conns service = Some c" "token_ready c = Inr True"
  proof (cases "conns service")
    case None
    then show ?thesis using primary unregistered by blast
  next
    case (Some c)
    show ?thesis
    proof (cases "token_ready c")
      case (Inl e)
      with Some show ?thesis using primary token_raises by blast
    next
      case (Inr b)
      with Some show ?thesis using primary not_ready ready by (cases b) auto
    qed
  qed
  then show ?thesis
  proof cases
    case primary
    then have "sync_target conns p src item w = (Inr (), w)"
      by (simp add: sync_target_def item)
    with assms have "r = Inr ()" "w' = w" by simp_all
    moreover have "expected_calls conns p src [item] = []"
      using primary by (simp add: expected_calls_def eligible_def item)
    ultimately have "?goal []" by simp
    then show ?thesis ..
  next
    case unregistered
    then have "sync_target conns p src item w = (Inr (), w)"
      by (simp add: sync_target_def item)
    with assms have "r = Inr ()" "w' = w" by simp_all
    moreover have "expected_calls conns p src [item] = []"
      using unregistered by (simp add: expected_calls_def eligible_def item)
    ultimately have "?goal []" by simp
    then show ?thesis ..
  next
    case token_raises
    then have "sync_target conns p src item w = (Inl e, emit (TokenReady service) w)"
      by (simp add: sync_target_def item)
    with assms have "r = Inl e" "w' = emit (TokenReady service) w" by simp_all
    then have "?goal [TokenReady service]" by (simp add: emit_eq)
    then show ?thesis ..
  next
    case not_ready
    then have "sync_target conns p src item w = (Inr (), emit (TokenReady service) w)"
      by (simp add: sync_target_def item)
    with assms have "r = Inr ()" "w' = emit (TokenReady service) w" by simp_all
    moreover have "expected_calls conns p src [item] = []"
      using not_ready by (simp add: expected_calls_def eligible_def item)
    ultimately have "?goal [TokenReady service]" by (simp add: emit_eq)
    then show ?thesis ..
  next
    case ready
    have exp: "expected_calls conns p src [item] = [ReplaceTracks service pid (matched_tracks c src)]"
      using ready by (simp add: expected_calls_def eligible_def expected_call_def item)
    show ?thesis
    proof (cases "src = []")
      case True
      with ready have "sync_target conns p src item w =
          (replace_tracks c pid [],
           emit (ReplaceTracks service pid []) (emit (TokenReady service) w))"
        by (simp add: sync_target_def item)
      with assms have "w' = emit (ReplaceTracks service pid []) (emit (TokenReady service) w)"
        by simp
      with exp True have "?goal [TokenReady service, ReplaceTracks service pid []]"
        by (simp add: emit_eq)
      then show ?thesis ..
    next
      case False
      obtain sr sw where search:
        "search_all service c src [] (emit (TokenReady service) w) = (sr, sw)"
        by (cases "search_all service c src [] (emit (TokenReady service) w)")
      from search_all_spec [OF search] obtain sevs where sevs:
        "sw = (emit (TokenReady service) w)\<lparr>trace := trace (emit (TokenReady service) w) @ sevs\<rparr>"
        "replace_calls sevs = []" "store_writes sevs = []"
        "\<forall>mapped. sr = Inr mapped \<longrightarrow> mapped = matched_tracks c src"
        by auto
      show ?thesis
      proof (cases sr)
        case (Inl e)
        with ready False search have "sync_target conns p src item w = (Inl e, sw)"
          by (simp add: sync_target_def item)
        with assms have "r = Inl e" "w' = sw" by simp_all
        with sevs have "?goal (TokenReady service # sevs)" by (simp add: emit_eq)
        then show ?thesis ..
      next
        case (Inr mapped)
        with sevs have mapped: "mapped = matched_tracks c src" by simp
        with ready False search Inr have "sync_target conns p src item w =
            (replace_tracks c pid (matched_tracks c src),
             emit (ReplaceTracks service pid (matched_tracks c src)) sw)"
          by (simp add: sync_target_def item)
        with assms have "w' = emit (ReplaceTracks service pid (matched_tracks c src)) sw"
          by simp
        with sevs exp
        have "?goal (TokenReady service # sevs @ [ReplaceTracks service pid (matched_tracks c src)])"
          by (simp add: emit_eq)
        then show ?thesis ..
      qed
    qed
  qed
qed

lemma sync_items_spec:
  "sync_items conns p src items w = (r, w') \<Longrightarrow>
     \<exists>evs k. w' = w\<lparr>trace := trace w @ evs\<rparr> \<and> store_writes evs = [] \<and>
        replace_calls evs = take k (expected_calls conns p src items) \<and>
        (r = Inr () \<longrightarrow> replace_calls evs = expected_calls conns p src items)"
proof (induction items arbitrary: w)
  case Nil
  then show ?case by (auto intro!: exI [of _ "[]"])
next
  case (Cons item rest)
  obtain r1 w1 where step: "sync_target conns p src item w = (r1, w1)"
    by (cases "sync_target conns p src item w")
  from sync_target_spec [OF step] obtain evs1 where evs1:
    "w1 = w\<lparr>trace := trace w @ evs1\<rparr>" "store_writes evs1 = []"
    "replace_calls evs1 = [] \<or> replace_calls evs1 = expected_calls conns p src [item]"
    "r1 = Inr () \<longrightarrow> replace_calls evs1 = expected_calls conns p src [item]"
    by blast
  let ?E1 = "expected_calls conns p src [item]"
  let ?E2 = "expected_calls conns p src rest"
  have split: "expected_calls conns p src (item # rest) = ?E1 @ ?E2"
    by (rule expected_calls_Cons)
  show ?case
  proof (cases r1)
    case (Inl e)
    with Cons.prems step have res: "r = Inl e" "w' = w1" by simp_all
    from evs1(3) have "\<exists>k. replace_calls evs1 = take k (?E1 @ ?E2)"
    proof
      assume "replace_calls evs1 = []"
      then show ?thesis by (intro exI [of _ 0]) simp
    next
      assume "replace_calls evs1 = ?E1"
      then show ?thesis by (intro exI [of _ "length ?E1"]) simp
    qed
    then obtain k where "replace_calls evs1 = take k (expected_calls conns p src (item # rest))"
      unfolding split by blast
    with res evs1(1,2) show ?thesis
      by blast
  next
    case (Inr u)
    with Cons.prems step have "sync_items conns p src rest w1 = (r, w')" by simp
    from Cons.IH [OF this] obtain evs2 k where evs2:
      "w' = w1\<lparr>trace := trace w1 @ evs2\<rparr>" "store_writes evs2 = []"
      "replace_calls evs2 = take k ?E2"
      "r = Inr () \<longrightarrow> replace_calls evs2 = ?E2"
      by blast
    from Inr evs1 have full: "replace_calls evs1 = ?E1" by simp
    have "w' = w\<lparr>trace := trace w @ (evs1 @ evs2)\<rparr>"
      using evs1(1) evs2(1) by simp
    moreover have "store_writes (evs1 @ evs2) = []"
      using evs1(2) evs2(2) by simp
    moreover have "replace_calls (evs1 @ evs2) = take (length ?E1 + k) (expected_calls conns p src (item # rest))"
      unfolding split using full evs2(3) by simp
    moreover have "r = Inr () \<longrightarrow> replace_calls (evs1 @ evs2) = expected_calls conns p src (item # rest)"
      unfolding split using full evs2(4) by simp
    ultimately show ?thesis by blast
  qed
qed

lemma sync_targets_spec:
  "sync_targets conns g src w = (r, w') \<Longrightarrow>
     \<exists>evs k. w' = w\<lparr>trace := trace w @ evs\<rparr> \<and> store_writes evs = [] \<and>
        replace_calls evs = take k (expected_calls conns (primary_service g) src (playlists g)) \<and>
        (r = Inr () \<longrightarrow>
           replace_calls evs = expected_calls conns (primary_service g) src (playlists g))"
  unfolding sync_targets_def by (rule sync_items_spec)

lemma compare_and_sync_same:
  assumes "storage_get (store w) (snapshot_key g) JNull = JStr (tracks_digest sha src)"
  shows "compare_and_sync sha conns g src w = (Inr (), w\<lparr>trace := trace w @ [StoreGet (snapshot_key g)]\<rparr>)"
  using assms by (simp add: compare_and_sync_def Let_def emit_eq)

lemma compare_and_sync_changed:
  assumes "storage_get (store w) (snapshot_key g) JNull \<noteq> JStr (tracks_digest sha src)"
    and "compare_and_sync sha conns g src w = (r, w')"
  shows "\<exists>evs k.
      replace_calls evs = take k (expected_calls conns (primary_service g) src (playlists g)) \<and>
      store_writes evs = [] \<and>
      (case r of
         Inl e \<Rightarrow> w' = w\<lparr>trace := trace w @ StoreGet (snapshot_key g) # evs\<rparr>
       | Inr u \<Rightarrow>
           replace_calls evs = expected_calls conns (primary_service g) src (playlists g) \<and>
           w' = \<lparr>store = storage_set (store w) (snapshot_key g) (JStr (tracks_digest sha src)),
                 trace = trace w @ StoreGet (snapshot_key g) # evs @
                   [StoreSet (snapshot_key g) (JStr (tracks_digest sha src))]\<rparr>)"
proof -
  let ?w1 = "emit (StoreGet (snapshot_key g)) w"
  obtain tr tw where targets: "sync_targets conns g src ?w1 = (tr, tw)"
    by (cases "sync_targets conns g src ?w1")
  from sync_targets_spec [OF targets] obtain evs k where evs:
    "tw = ?w1\<lparr>trace := trace ?w1 @ evs\<rparr>" "store_writes evs = []"
    "replace_calls evs = take k (expected_calls conns (primary_service g) src (playlists g))"
    "tr = Inr () \<longrightarrow> replace_calls evs = expected_calls conns (primary_service g) src (playlists g)"
    by blast
  show ?thesis
  proof (cases tr)
    case (Inl e)
    with assms targets have "r = Inl e" "w' = tw"
      by (simp_all add: compare_and_sync_def Let_def)
    with evs show ?thesis
      by (intro exI [of _ evs] exI [of _ k]) (simp add: emit_eq)
  next
    case (Inr u)
    with assms targets have "r = Inr ()"
      "w' = emit (StoreSet (snapshot_key g) (JStr (tracks_digest sha src)))
              (tw\<lparr>store := storage_set (store tw) (snapshot_key g) (JStr (tracks_digest sha src))\<rparr>)"
      by (simp_all add: compare_and_sync_def Let_def)
    with evs Inr show ?thesis
      by (intro exI [of _ evs] exI [of _ k]) (simp add: emit_eq)
  qed
qed

lemma sync_group_fetches:
  assumes "fetches conns g pid src"
  shows "sync_group sha conns g w =
     compare_and_sync sha conns g src
       (w\<lparr>trace := trace w @ [TokenReady (primary_service g), ListTracks (primary_service g) pid]\<rparr>)"
  using assms by (auto simp: fetches_def sync_group_def emit_eq split: option.splits)

lemma sync_group_skips:
  assumes "\<forall>pid src. \<not> fetches conns g pid src"
  shows "\<exists>r evs. (\<forall>w. sync_group sha conns g w = (r, w\<lparr>trace := trace w @ evs\<rparr>)) \<and>
           replace_calls evs = [] \<and> store_writes evs = []"
proof (cases "conns (primary_service g)")
  case None
  then have "\<forall>w. sync_group sha conns g w = (Inr (), w\<lparr>trace := trace w @ []\<rparr>)"
    by (simp add: sync_group_def)
  then show ?thesis by (intro exI [of _ "Inr ()"] exI [of _ "[]"]) simp
next
  case (Some pc)
  let ?ps = "primary_service g"
  show ?thesis
  proof (cases "token_ready pc")
    case (Inl e)
    with Some have "\<forall>w. sync_group sha conns g w = (Inl e, w\<lparr>trace := trace w @ [TokenReady ?ps]\<rparr>)"
      by (simp add: sync_group_def emit_eq)
    then show ?thesis by (intro exI [of _ "Inl e"] exI [of _ "[TokenReady ?ps]"]) simp
  next
    case (Inr ready)
    show ?thesis
    proof (cases "ready \<and> (\<exists>pid. map_of (playlists g) ?ps = Some pid \<and> pid \<noteq> [])")
      case False
      with Some Inr
      have "\<forall>w. sync_group sha conns g w = (Inr (), w\<lparr>trace := trace w @ [TokenReady ?ps]\<rparr>)"
        by (auto simp: sync_group_def emit_eq split: option.splits)
      then show ?thesis by (intro exI [of _ "Inr ()"] exI [of _ "[TokenReady ?ps]"]) simp
    next
      case True
      then obtain pid where pid: "ready" "map_of (playlists g) ?ps = Some pid" "pid \<noteq> []"
        by blast
      with assms Some Inr obtain e where "list_tracks pc pid = Inl e"
        by (cases "list_tracks pc pid") (auto simp: fetches_def)
      with Some Inr pid
      have "\<forall>w. sync_group sha conns g w =
          (Inl e, w\<lparr>trace := trace w @ [TokenReady ?ps, ListTracks ?ps pid]\<rparr>)"
        by (simp add: sync_group_def emit_eq)
      then show ?thesis
        by (intro exI [of _ "Inl e"] exI [of _ "[TokenReady ?ps, ListTracks ?ps pid]"]) simp
    qed
  qed
qed

lemmas example_defs = working_def failing_def unlinked_def spotify_def apple_def apple_failing_def
  youtube_def spotify_unlinked_def mirror_def second_def fresh_def synced_def

lemmas engine_defs = sync_group_def compare_and_sync_def sync_targets_def sync_target_def
  emit_def storage_get_def snapshot_key_def Let_def

text \<open>
  Claim C6. When no connector is registered for the primary service, or the primary
  connector's \<^verbatim>\<open>token_ready()\<close> returns false, or the mapping has no entry under the key
  of the primary service, reconciling the group leaves the store as it is and makes at
  most the one call \<^verbatim>\<open>token_ready()\<close> on the primary connector: no \<^verbatim>\<open>list_tracks\<close>, no
  \<^verbatim>\<open>search_track\<close>, no \<^verbatim>\<open>replace_tracks\<close> on any service, and no read or write of the
  State Store.
\<close>

theorem skipped_group_untouched:
  assumes "conns (primary_service g) = None \<or>
           (\<exists>pc. conns (primary_service g) = Some pc \<and> token_ready pc = Inr False) \<or>
           map_of (playlists g) (primary_service g) = None"
  shows "\<exists>evs. snd (sync_group sha conns g w) = w\<lparr>trace := trace w @ evs\<rparr> \<and>
           (evs = [] \<or> evs = [TokenReady (primary_service g)])"
  using assms
proof (elim disjE exE conjE)
  assume "conns (primary_service g) = None"
  then have "snd (sync_group sha conns g w) = w\<lparr>trace := trace w @ []\<rparr>"
    by (simp add: sync_group_def)
  then show ?thesis by blast
next
  fix pc assume "conns (primary_service g) = Some pc" "token_ready pc = Inr False"
  then have "snd (sync_group sha conns g w) = w\<lparr>trace := trace w @ [TokenReady (primary_service g)]\<rparr>"
    by (simp add: sync_group_def emit_eq)
  then show ?thesis by blast
next
  assume none: "map_of (playlists g) (primary_service g) = None"
  show ?thesis
  proof (cases "conns (primary_service g)")
    case None
    then have "snd (sync_group sha conns g w) = w\<lparr>trace := trace w @ []\<rparr>"
      by (simp add: sync_group_def)
    then show ?thesis by blast
  next
    case (Some pc)
    with none
    have "snd (sync_group sha conns g w) = w\<lparr>trace := trace w @ [TokenReady (primary_service g)]\<rparr>"
      by (simp add: sync_group_def emit_eq split: sum.splits)
    then show ?thesis by blast
  qed
qed

text \<open>
  The group \<open>mirror\<close> while Spotify, its primary service, has no token: the only call
  is \<^verbatim>\<open>token_ready()\<close> on Spotify.
\<close>

theorem skipped_group_untouched_witness:
  "(\<exists>pc. unlinked (primary_service mirror) = Some pc \<and> token_ready pc = Inr False) \<and>
   snd (sync_group length_hash unlinked mirror fresh) = fresh\<lparr>trace := [TokenReady SPOTIFY]\<rparr>"
proof -
  have h: "\<exists>pc. unlinked (primary_service mirror) = Some pc \<and> token_ready pc = Inr False"
    by (simp add: example_defs)
  then have "unlinked (primary_service mirror) = None \<or>
           (\<exists>pc. unlinked (primary_service mirror) = Some pc \<and> token_ready pc = Inr False) \<or>
           map_of (playlists mirror) (primary_service mirror) = None"
    by blast
  with skipped_group_untouched [where conns = unlinked and g = mirror and sha = length_hash and w = fresh]
  obtain evs where "snd (sync_group length_hash unlinked mirror fresh) = fresh\<lparr>trace := trace fresh @ evs\<rparr>"
    "evs = [] \<or> evs = [TokenReady (primary_service mirror)]"
    by blast
  moreover have "trace (snd (sync_group length_hash unlinked mirror fresh)) \<noteq> []"
    by (simp add: example_defs engine_defs)
  ultimately have "snd (sync_group length_hash unlinked mirror fresh) = fresh\<lparr>trace := [TokenReady SPOTIFY]\<rparr>"
    by (auto simp: fresh_def mirror_def)
  with h show ?thesis by blast
qed


lemma sync_group_trace:
  assumes "sync_group sha conns g w = (r, w')"
  shows "\<exists>evs. trace w' = trace w @ evs"
proof (cases "\<exists>pid src. fetches conns g pid src")
  case False
  then have "\<forall>pid src. \<not> fetches conns g pid src" by blast
  from sync_group_skips [OF this, of sha] assms show ?thesis by auto
next
  case True
  then obtain pid src where fetch: "fetches conns g pid src" by blast
  let ?w0 = "w\<lparr>trace := trace w @ [TokenReady (primary_service g), ListTracks (primary_service g) pid]\<rparr>"
  from assms sync_group_fetches [OF fetch, of sha w]
  have run: "compare_and_sync sha conns g src ?w0 = (r, w')" by simp
  show ?thesis
  proof (cases "storage_get (store ?w0) (snapshot_key g) JNull = JStr (tracks_digest sha src)")
    case True
    from compare_and_sync_same [OF this, of conns] run show ?thesis by auto
  next
    case False
    from compare_and_sync_changed [OF False run] show ?thesis
      by (cases r) auto
  qed
qed



lemma first_run: "fst (sync_group length_hash working mirror fresh) = Inr ()"
  by (simp add: example_defs engine_defs)

lemma fetches_example: "fetches working mirror ''spotify-1'' [song]"
  by (simp add: fetches_def example_defs)


subsection \<open>The calls on the targets\<close>

lemma calls_on_replace_calls: "calls_on s (replace_calls evs) = calls_on s evs"
proof (induction evs)
  case Nil
  then show ?case by (simp add: calls_on_def)
next
  case (Cons e evs)
  then show ?case by (cases e) (simp_all add: calls_on_def)
qed

lemma filter_take_prefix: "\<exists>j. filter P (take k xs) = take j (filter P xs)"
proof (induction xs arbitrary: k)
  case Nil
  then show ?case by simp
next
  case (Cons x xs)
  show ?case
  proof (cases k)
    case 0
    then show ?thesis by (intro exI [of _ 0]) simp
  next
    case (Suc n)
    from Cons.IH [of n] obtain j where j: "filter P (take n xs) = take j (filter P xs)" ..
    show ?thesis
    proof (cases "P x")
      case True
      with Suc j show ?thesis by (intro exI [of _ "Suc j"]) simp
    next
      case False
      with Suc j show ?thesis by (intro exI [of _ j]) simp
    qed
  qed
qed

lemma take_singleton: "take j [x] = [] \<or> take j [x] = [x]"
  by (cases j) simp_all

lemma filter_key_distinct:
  "distinct (map fst items) \<Longrightarrow> item \<in> set items \<Longrightarrow>
     filter (\<lambda>it. fst it = fst item) items = [item]"
proof (induction items)
  case Nil
  then show ?case by simp
next
  case (Cons x xs)
  show ?case
  proof (cases "x = item")
    case True
    with Cons.prems(1) have "\<forall>y\<in>set xs. fst y \<noteq> fst item"
      by (auto simp: image_iff)
    then have "filter (\<lambda>it. fst it = fst item) xs = []"
      by (simp add: filter_empty_conv)
    with True show ?thesis by simp
  next
    case False
    with Cons.prems have "item \<in> set xs" by simp
    with Cons.prems(1) have "fst x \<noteq> fst item"
      by (auto simp: image_iff)
    with Cons \<open>item \<in> set xs\<close> show ?thesis by simp
  qed
qed

lemma calls_on_expected:
  assumes "distinct (map fst items)" and "item \<in> set items" and "eligible conns p item"
  shows "calls_on (fst item) (expected_calls conns p src items) = [expected_call conns src item]"
proof -
  have "calls_on (fst item) (expected_calls conns p src items) =
      map (expected_call conns src)
        (filter (eligible conns p) (filter (\<lambda>it. fst it = fst item) items))"
    by (simp add: calls_on_def expected_calls_def filter_map comp_def expected_call_def conj_commute)
  also have "\<dots> = [expected_call conns src item]"
    using assms by (simp add: filter_key_distinct)
  finally show ?thesis .
qed

lemma matched_apple: "matched_tracks apple [song] = [song\<lparr>track_id := ''a1''\<rparr>]"
  by (simp add: matched_tracks_def map_filter_simps apple_def)

lemma failing_run:
  "sync_group length_hash failing mirror fresh =
     (Inl (ConnectorError ''replace failed''),
      fresh\<lparr>trace := [TokenReady SPOTIFY, ListTracks SPOTIFY ''spotify-1'',
                       StoreGet ''sync_snapshot::g1'', TokenReady APPLE_MUSIC,
                       SearchTrack APPLE_MUSIC song,
                       ReplaceTracks APPLE_MUSIC ''apple-1'' [song\<lparr>track_id := ''a1''\<rparr>]]\<rparr>)"
  by (simp add: example_defs engine_defs)

text \<open>
  Claim C5, as stated, gives every eligible target exactly one \<^verbatim>\<open>replace_tracks\<close> call
  in a changed cycle. With the connectors \<open>failing\<close>, the cycle of \<open>mirror\<close> over the fresh
  store is a changed one and YouTube Music is an eligible target, but the call on Apple
  Music, which comes first in the mapping, raises, and no \<^verbatim>\<open>replace_tracks\<close> call is
  made on YouTube Music.
\<close>

theorem eligible_target_skipped_counterexample:
  "fetches failing mirror ''spotify-1'' [song] \<and>
   storage_get (store fresh) (snapshot_key mirror) JNull \<noteq> JStr (tracks_digest length_hash [song]) \<and>
   (YOUTUBE_MUSIC, ''yt-1'') \<in> set (playlists mirror) \<and>
   eligible failing (primary_service mirror) (YOUTUBE_MUSIC, ''yt-1'') \<and>
   calls_on YOUTUBE_MUSIC (new_events fresh (snd (sync_group length_hash failing mirror fresh))) = []"
  by (simp add: failing_run new_events_def calls_on_def)
     (simp add: fetches_def eligible_def example_defs storage_get_def)

text \<open>
  Claim C5, amended. In a changed cycle, every eligible target (an entry of the mapping,
  not the primary service, whose connector is registered and ready) gets at most one
  \<^verbatim>\<open>replace_tracks\<close> call, and exactly one when the cycle returns without an exception:
  on its own playlist, with the empty list when the source is empty and otherwise with
  the results of \<^verbatim>\<open>search_track\<close> for the source tracks, in source order, without the
  tracks that have no match. The mapping is a dictionary: its keys are distinct.
\<close>

theorem fan_out_calls:
  assumes "fetches conns g pid src"
    and "storage_get (store w) (snapshot_key g) JNull \<noteq> JStr (tracks_digest sha src)"
    and "sync_group sha conns g w = (r, w')"
    and "distinct (map fst (playlists g))"
    and "(service, playlist_id) \<in> set (playlists g)"
    and "service \<noteq> primary_service g"
    and "conns service = Some c"
    and "token_ready c = Inr True"
  shows "(calls_on service (new_events w w') = [] \<or>
          calls_on service (new_events w w') =
            [ReplaceTracks service playlist_id (if src = [] then [] else matched_tracks c src)]) \<and>
         (r = Inr () \<longrightarrow>
            calls_on service (new_events w w') =
              [ReplaceTracks service playlist_id (if src = [] then [] else matched_tracks c src)])"
proof -
  let ?ps = "primary_service g"
  let ?w0 = "w\<lparr>trace := trace w @ [TokenReady ?ps, ListTracks ?ps pid]\<rparr>"
  let ?E = "expected_calls conns ?ps src (playlists g)"
  let ?call = "ReplaceTracks service playlist_id (if src = [] then [] else matched_tracks c src)"
  have elig: "eligible conns ?ps (service, playlist_id)"
    using assms(6-8) by (simp add: eligible_def)
  have "expected_call conns src (service, playlist_id) = ?call"
    using assms(7) by (simp add: expected_call_def)
  with calls_on_expected [OF assms(4,5) elig, of src]
  have one: "calls_on service ?E = [?call]" by simp
  from assms(2) have changed: "storage_get (store ?w0) (snapshot_key g) JNull \<noteq> JStr (tracks_digest sha src)"
    by simp
  from assms(3) sync_group_fetches [OF assms(1), of sha w]
  have "compare_and_sync sha conns g src ?w0 = (r, w')" by simp
  from compare_and_sync_changed [OF changed this] obtain evs k where evs:
    "replace_calls evs = take k ?E" "store_writes evs = []"
    "case r of
         Inl e \<Rightarrow> w' = ?w0\<lparr>trace := trace ?w0 @ StoreGet (snapshot_key g) # evs\<rparr>
       | Inr u \<Rightarrow>
           replace_calls evs = ?E \<and>
           w' = \<lparr>store = storage_set (store ?w0) (snapshot_key g) (JStr (tracks_digest sha src)),
                 trace = trace ?w0 @ StoreGet (snapshot_key g) # evs @
                   [StoreSet (snapshot_key g) (JStr (tracks_digest sha src))]\<rparr>"
    by blast
  have "calls_on service (new_events w w') = calls_on service evs"
    using evs(3) by (cases r) (simp_all add: new_events_def calls_on_def)
  then have calls: "calls_on service (new_events w w') = calls_on service (replace_calls evs)"
    by (simp add: calls_on_replace_calls)
  obtain j where "calls_on service (take k ?E) = take j (calls_on service ?E)"
    unfolding calls_on_def using filter_take_prefix by blast
  with one evs(1) calls have "calls_on service (new_events w w') = take j [?call]"
    by simp
  with take_singleton [of j ?call]
  have part1: "calls_on service (new_events w w') = [] \<or> calls_on service (new_events w w') = [?call]"
    by auto
  have part2: "r = Inr () \<longrightarrow> calls_on service (new_events w w') = [?call]"
  proof
    assume "r = Inr ()"
    with evs(3) have "replace_calls evs = ?E" by simp
    with calls one show "calls_on service (new_events w w') = [?call]" by simp
  qed
  from part1 part2 show ?thesis by blast
qed

text \<open>
  The cycle of \<open>mirror\<close> over the fresh store with the connectors \<open>working\<close>: one call on
  Apple Music, with the match of \<open>song\<close>.
\<close>

theorem fan_out_calls_witness:
  "fetches working mirror ''spotify-1'' [song] \<and>
   storage_get (store fresh) (snapshot_key mirror) JNull \<noteq> JStr (tracks_digest length_hash [song]) \<and>
   sync_group length_hash working mirror fresh =
     (Inr (), snd (sync_group length_hash working mirror fresh)) \<and>
   distinct (map fst (playlists mirror)) \<and>
   (APPLE_MUSIC, ''apple-1'') \<in> set (playlists mirror) \<and>
   APPLE_MUSIC \<noteq> primary_service mirror \<and>
   working APPLE_MUSIC = Some apple \<and>
   token_ready apple = Inr True \<and>
   calls_on APPLE_MUSIC (new_events fresh (snd (sync_group length_hash working mirror fresh))) =
     [ReplaceTracks APPLE_MUSIC ''apple-1'' [song\<lparr>track_id := ''a1''\<rparr>]]"
proof -
  have h1: "fetches working mirror ''spotify-1'' [song]"
    by (rule fetches_example)
  have h2: "storage_get (store fresh) (snapshot_key mirror) JNull \<noteq> JStr (tracks_digest length_hash [song])"
    by (simp add: fresh_def storage_get_def)
  have h3: "sync_group length_hash working mirror fresh =
     (Inr (), snd (sync_group length_hash working mirror fresh))"
    using first_run by (simp add: prod_eq_iff)
  have h4: "distinct (map fst (playlists mirror))"
    by (simp add: mirror_def)
  have h5: "(APPLE_MUSIC, ''apple-1'') \<in> set (playlists mirror)"
    by (simp add: mirror_def)
  have h6: "APPLE_MUSIC \<noteq> primary_service mirror"
    by (simp add: mirror_def)
  have h7: "working APPLE_MUSIC = Some apple"
    by (simp add: working_def)
  have h8: "token_ready apple = Inr True"
    by (simp add: apple_def)
  from fan_out_calls [OF h1 h2 h3 h4 h5 h6 h7 h8]
  have "calls_on APPLE_MUSIC (new_events fresh (snd (sync_group length_hash working mirror fresh))) =
     [ReplaceTracks APPLE_MUSIC ''apple-1'' [song\<lparr>track_id := ''a1''\<rparr>]]"
    by (simp add: matched_apple)
  with h1 h2 h3 h4 h5 h6 h7 h8 show ?thesis by blast
qed

subsection \<open>A target that fails\<close>






subsection \<open>The sweep and the scheduler loop\<close>

lemma stored_examples: "map stored_group [mirror, second] = [mirror, second]"
  by (simp add: stored_group_def sorted_playlists_def mirror_def second_def)

lemma load_registry: "load_groups registry = Inr [mirror, second]"
  unfolding registry_def load_save stored_examples ..

lemma sync_all_append:
  "sync_all sha conns (xs @ ys) w =
     (case sync_all sha conns xs w of
        (Inl e, w') \<Rightarrow> (Inl e, w')
      | (Inr u, w') \<Rightarrow> sync_all sha conns ys w')"
  by (induction xs arbitrary: w) (auto split: prod.splits sum.splits)

lemma run_append: "run sha conns (xs @ ys) l = run sha conns ys (run sha conns xs l)"
  by (simp add: run_def)

lemma run_Cons: "run sha conns (a # schedule) l = run sha conns schedule (loop_step sha conns l a)"
  by (simp add: run_def)

lemma run_Nil: "run sha conns [] l = l"
  by (simp add: run_def)

lemma run_crashed:
  "at l = Crashed e \<Longrightarrow>
     at (run sha conns schedule l) = Crashed e \<and> started (run sha conns schedule l) = started l \<and>
     finished (run sha conns schedule l) = finished l \<and> env (run sha conns schedule l) = env l"
proof (induction schedule arbitrary: l)
  case Nil
  then show ?case by (simp add: run_Nil)
next
  case (Cons a schedule)
  have "at (loop_step sha conns l a) = Crashed e" "started (loop_step sha conns l a) = started l"
    "finished (loop_step sha conns l a) = finished l" "env (loop_step sha conns l a) = env l"
    using Cons.prems by (cases a; simp add: loop_step_def)+
  with Cons.IH [of "loop_step sha conns l a"] show ?case
    by (simp add: run_Cons)
qed

lemma failing_sweep:
  "run_once length_hash failing registered =
     (Inl (ConnectorError ''replace failed''),
      registered\<lparr>trace := [StoreGet ''sync_groups'', TokenReady SPOTIFY,
                            ListTracks SPOTIFY ''spotify-1'', StoreGet ''sync_snapshot::g1'',
                            TokenReady APPLE_MUSIC, SearchTrack APPLE_MUSIC song,
                            ReplaceTracks APPLE_MUSIC ''apple-1'' [song\<lparr>track_id := ''a1''\<rparr>]]\<rparr>)"
  by (simp add: run_once_def registered_def load_registry)
     (simp add: example_defs engine_defs registry_def save_groups_def storage_set_def)

text \<open>
  Claim C2, as stated, lets the sweep go on to the remaining groups and keeps the loop
  alive after a connector call raised. With the connectors \<open>failing\<close> the sweep over
  \<open>mirror\<close> and \<open>second\<close> ends with the exception raised for \<open>mirror\<close>: the trace has no
  call for \<open>second\<close>, and the loop is at \<open>Crashed\<close>, where it stays without another sweep.
\<close>

theorem failed_group_counterexample:
  "run_once length_hash failing registered =
     (Inl (ConnectorError ''replace failed''),
      registered\<lparr>trace := [StoreGet ''sync_groups'', TokenReady SPOTIFY,
                            ListTracks SPOTIFY ''spotify-1'', StoreGet ''sync_snapshot::g1'',
                            TokenReady APPLE_MUSIC, SearchTrack APPLE_MUSIC song,
                            ReplaceTracks APPLE_MUSIC ''apple-1'' [song\<lparr>track_id := ''a1''\<rparr>]]\<rparr>) \<and>
   at (run length_hash failing [Advance, Advance] (start registered)) =
     Crashed (ConnectorError ''replace failed'') \<and>
   at (run length_hash failing [Advance, Advance, Advance, Advance, Advance] (start registered)) =
     Crashed (ConnectorError ''replace failed'') \<and>
   started (run length_hash failing [Advance, Advance, Advance, Advance, Advance] (start registered)) = 1"
  by (simp add: failing_sweep run_def loop_step_def start_def)

text \<open>
  Claim C2, amended. When the reconciliation of one group raises, after the groups
  before it were reconciled without an exception, the sweep ends with that exception:
  the groups after it are not processed. A loop that is in this sweep ends with the
  exception too: it is at \<open>Crashed\<close> after the sweep and stays there, whatever happens
  next, without beginning another sweep.
\<close>

theorem failed_group_aborts_sweep:
  assumes "load_groups (store w) = Inr (before @ g # after)"
    and "sync_all sha conns before (emit (StoreGet ''sync_groups'') w) = (Inr (), w1)"
    and "sync_group sha conns g w1 = (Inl e, w2)"
    and "at l = InPass" and "env l = w"
  shows "run_once sha conns w = (Inl e, w2) \<and>
         at (run sha conns (Advance # schedule) l) = Crashed e \<and>
         started (run sha conns (Advance # schedule) l) = started l \<and>
         env (run sha conns (Advance # schedule) l) = w2"
proof -
  have once: "run_once sha conns w = (Inl e, w2)"
    using assms(1-3) by (simp add: run_once_def sync_all_append)
  let ?l' = "loop_step sha conns l Advance"
  from once assms(4,5) have step: "at ?l' = Crashed e" "started ?l' = started l" "env ?l' = w2"
    by (simp_all add: loop_step_def)
  from run_crashed [OF step(1), of sha conns schedule] step(2,3) once
  show ?thesis by (simp add: run_Cons)
qed

text \<open>
  The sweep over \<open>mirror\<close> and \<open>second\<close> with the connectors \<open>failing\<close>, in a loop that has
  just begun it.
\<close>

theorem failed_group_aborts_sweep_witness:
  "load_groups (store registered) = Inr ([] @ mirror # [second]) \<and>
   sync_all length_hash failing [] (emit (StoreGet ''sync_groups'') registered) =
     (Inr (), emit (StoreGet ''sync_groups'') registered) \<and>
   fst (sync_group length_hash failing mirror (emit (StoreGet ''sync_groups'') registered)) =
     Inl (ConnectorError ''replace failed'') \<and>
   at in_pass = InPass \<and> env in_pass = registered \<and>
   fst (run_once length_hash failing registered) = Inl (ConnectorError ''replace failed'') \<and>
   at (run length_hash failing [Advance, Advance, Advance] in_pass) =
     Crashed (ConnectorError ''replace failed'') \<and>
   started (run length_hash failing [Advance, Advance, Advance] in_pass) = 1"
proof -
  let ?w1 = "emit (StoreGet ''sync_groups'') registered"
  let ?e = "ConnectorError ''replace failed''"
  have h1: "load_groups (store registered) = Inr ([] @ mirror # [second])"
    by (simp add: registered_def load_registry)
  have h2: "sync_all length_hash failing [] ?w1 = (Inr (), ?w1)"
    by simp
  have raised: "fst (sync_group length_hash failing mirror ?w1) = Inl ?e"
    by (simp add: example_defs engine_defs registered_def registry_def save_groups_def
        storage_set_def)
  then have h3: "sync_group length_hash failing mirror ?w1 =
      (Inl ?e, snd (sync_group length_hash failing mirror ?w1))"
    by (simp add: prod_eq_iff)
  have h4: "at in_pass = InPass" and h5: "env in_pass = registered"
    by (simp_all add: in_pass_def)
  from failed_group_aborts_sweep [OF h1 h2 h3 h4 h5, of "[Advance, Advance]"]
  have "fst (run_once length_hash failing registered) = Inl ?e"
    and "at (run length_hash failing [Advance, Advance, Advance] in_pass) = Crashed ?e"
    and "started (run length_hash failing [Advance, Advance, Advance] in_pass) = 1"
    by (simp_all add: in_pass_def)
  with h1 h2 raised h4 h5 show ?thesis by simp
qed

lemma loop_step_stopped:
  assumes "stop_event l"
  shows "stop_event (loop_step sha conns l a) \<and> started (loop_step sha conns l a) = started l"
  using assms by (cases a; cases "at l") (auto simp: loop_step_def split: prod.splits sum.splits)

lemma run_stopped:
  "stop_event l \<Longrightarrow>
     stop_event (run sha conns schedule l) \<and> started (run sha conns schedule l) = started l"
proof (induction schedule arbitrary: l)
  case Nil
  then show ?case by (simp add: run_Nil)
next
  case (Cons a schedule)
  from loop_step_stopped [OF Cons.prems, of sha conns a] Cons.IH [of "loop_step sha conns l a"]
  show ?case by (simp add: run_Cons)
qed

lemma loop_step_balanced: "balanced l \<Longrightarrow> balanced (loop_step sha conns l a)"
  by (cases a; cases "at l")
     (auto simp: loop_step_def balanced_def split: prod.splits sum.splits)

lemma run_balanced: "balanced l \<Longrightarrow> balanced (run sha conns schedule l)"
proof (induction schedule arbitrary: l)
  case Nil
  then show ?case by (simp add: run_Nil)
next
  case (Cons a schedule)
  from Cons.IH [OF loop_step_balanced [OF Cons.prems, of sha conns a]]
  show ?case by (simp add: run_Cons)
qed

text \<open>
  Claim C9. Once \<^verbatim>\<open>stop()\<close> has set the event, the loop begins no sweep: in every
  schedule the number of sweeps begun after a \<open>Stop\<close> is the number begun before it.
  The loop reaches \<open>Exited\<close> only with every sweep it began finished. With the event
  set, the loop at its test exits; a stop that arrives during the wait brings the loop
  back to the test and from there to \<open>Exited\<close>; a stop that arrives during a sweep leaves
  the loop in the sweep, and only when the sweep has returned does the loop go through
  the wait and the test to \<open>Exited\<close>.
\<close>

theorem no_sweep_after_stop:
  "started (run sha conns (before @ Stop # after) l) = started (run sha conns before l) \<and>
   (at (run sha conns schedule (start w)) = Exited \<longrightarrow>
      finished (run sha conns schedule (start w)) = started (run sha conns schedule (start w))) \<and>
   (at l = AtCheck \<and> stop_event l \<longrightarrow> at (run sha conns [Advance] l) = Exited) \<and>
   (at l = InWait \<longrightarrow>
      at (run sha conns [Stop, Advance] l) = AtCheck \<and>
      at (run sha conns [Stop, Advance, Advance] l) = Exited \<and>
      started (run sha conns [Stop, Advance, Advance] l) = started l) \<and>
   (at l = InPass \<and> fst (run_once sha conns (env l)) = Inr () \<longrightarrow>
      at (run sha conns [Stop] l) = InPass \<and>
      at (run sha conns [Stop, Advance] l) = InWait \<and>
      finished (run sha conns [Stop, Advance] l) = Suc (finished l) \<and>
      at (run sha conns [Stop, Advance, Advance, Advance] l) = Exited \<and>
      started (run sha conns [Stop, Advance, Advance, Advance] l) = started l)"
proof (intro conjI impI)
  let ?l = "loop_step sha conns (run sha conns before l) Stop"
  have "stop_event ?l" "started ?l = started (run sha conns before l)"
    by (simp_all add: loop_step_def)
  with run_stopped [of ?l sha conns after]
  show "started (run sha conns (before @ Stop # after) l) = started (run sha conns before l)"
    by (simp add: run_append run_Cons)
next
  assume "at (run sha conns schedule (start w)) = Exited"
  moreover have "balanced (run sha conns schedule (start w))"
    by (rule run_balanced) (simp add: balanced_def start_def)
  ultimately show "finished (run sha conns schedule (start w)) = started (run sha conns schedule (start w))"
    by (simp add: balanced_def)
next
  assume "at l = AtCheck \<and> stop_event l"
  then show "at (run sha conns [Advance] l) = Exited"
    by (simp add: run_def loop_step_def)
next
  assume "at l = InWait"
  then show "at (run sha conns [Stop, Advance] l) = AtCheck"
    and "at (run sha conns [Stop, Advance, Advance] l) = Exited"
    and "started (run sha conns [Stop, Advance, Advance] l) = started l"
    by (simp_all add: run_def loop_step_def)
next
  assume "at l = InPass \<and> fst (run_once sha conns (env l)) = Inr ()"
  then obtain w' where pass: "at l = InPass" "run_once sha conns (env l) = (Inr (), w')"
    by (cases "run_once sha conns (env l)") simp
  then show "at (run sha conns [Stop] l) = InPass"
    and "at (run sha conns [Stop, Advance] l) = InWait"
    and "finished (run sha conns [Stop, Advance] l) = Suc (finished l)"
    and "at (run sha conns [Stop, Advance, Advance, Advance] l) = Exited"
    and "started (run sha conns [Stop, Advance, Advance, Advance] l) = started l"
    by (simp_all add: run_def loop_step_def)
qed

lemma working_sweep: "fst (run_once length_hash working registered) = Inr ()"
  by (simp add: run_once_def registered_def load_registry)
     (simp add: example_defs engine_defs registry_def save_groups_def storage_set_def)

text \<open>
  On the store with the groups \<open>mirror\<close> and \<open>second\<close> and the connectors \<open>working\<close>: a
  stop before the first test, during the wait, and during the first sweep.
\<close>

theorem no_sweep_after_stop_witness:
  "at (run length_hash working [Stop, Advance] (start registered)) = Exited \<and>
   finished (run length_hash working [Stop, Advance] (start registered)) =
     started (run length_hash working [Stop, Advance] (start registered)) \<and>
   (at (run length_hash working [Stop] (start registered)) = AtCheck \<and>
    stop_event (run length_hash working [Stop] (start registered))) \<and>
   at (run length_hash working [Advance] (run length_hash working [Stop] (start registered))) = Exited \<and>
   at waiting = InWait \<and>
   at (run length_hash working [Stop, Advance, Advance] waiting) = Exited \<and>
   started (run length_hash working [Stop, Advance, Advance] waiting) = started waiting \<and>
   (at in_pass = InPass \<and> fst (run_once length_hash working (env in_pass)) = Inr ()) \<and>
   at (run length_hash working [Stop, Advance, Advance, Advance] in_pass) = Exited \<and>
   started (run length_hash working [Stop, Advance, Advance, Advance] in_pass) = started in_pass \<and>
   started (run length_hash working ([Advance] @ Stop # [Advance, Advance, Advance, Advance])
      (start registered)) = 1"
proof -
  note inst = no_sweep_after_stop [where sha = length_hash and conns = working]
  have exited: "at (run length_hash working [Stop, Advance] (start registered)) = Exited"
    by (simp add: run_def loop_step_def start_def)
  have check: "at (run length_hash working [Stop] (start registered)) = AtCheck \<and>
    stop_event (run length_hash working [Stop] (start registered))"
    by (simp add: run_def loop_step_def start_def)
  have wait: "at waiting = InWait"
    by (simp add: waiting_def)
  have pass: "at in_pass = InPass \<and> fst (run_once length_hash working (env in_pass)) = Inr ()"
    by (simp add: in_pass_def working_sweep)
  from inst [where schedule = "[Stop, Advance]" and w = registered] exited
  have c1: "finished (run length_hash working [Stop, Advance] (start registered)) =
     started (run length_hash working [Stop, Advance] (start registered))"
    by blast
  from inst [where l = "run length_hash working [Stop] (start registered)"] check
  have c2: "at (run length_hash working [Advance] (run length_hash working [Stop] (start registered))) = Exited"
    by blast
  from inst [where l = waiting] wait
  have c3: "at (run length_hash working [Stop, Advance, Advance] waiting) = Exited"
    "started (run length_hash working [Stop, Advance, Advance] waiting) = started waiting"
    by blast+
  from inst [where l = in_pass] pass
  have c4: "at (run length_hash working [Stop, Advance, Advance, Advance] in_pass) = Exited"
    "started (run length_hash working [Stop, Advance, Advance, Advance] in_pass) = started in_pass"
    by blast+
  from inst [where before = "[Advance]" and after = "[Advance, Advance, Advance, Advance]"
      and l = "start registered"]
  have "started (run length_hash working ([Advance] @ Stop # [Advance, Advance, Advance, Advance])
      (start registered)) = started (run length_hash working [Advance] (start registered))"
    by blast
  then have c5: "started (run length_hash working ([Advance] @ Stop # [Advance, Advance, Advance, Advance])
      (start registered)) = 1"
    by (simp add: run_def loop_step_def start_def)
  from exited c1 check c2 wait c3 pass c4 c5 show ?thesis
    by simp
qed

subsection \<open>The digest of a track list\<close>

lemma hex_digit_inj: "hex_digit a = hex_digit b \<Longrightarrow> a mod 16 = b mod 16"
proof -
  have d: "distinct ''0123456789abcdef''" by simp
  assume "hex_digit a = hex_digit b"
  then have "''0123456789abcdef'' ! (a mod 16) = ''0123456789abcdef'' ! (b mod 16)"
    by (simp add: hex_digit_def)
  moreover have "a mod 16 < length ''0123456789abcdef''" "b mod 16 < length ''0123456789abcdef''"
    by simp_all
  ultimately show ?thesis
    using d nth_eq_iff_index_eq by blast
qed

lemma hex_pair_inj:
  assumes "hex_digit ((of_char c :: nat) div 16) = hex_digit ((of_char d :: nat) div 16)"
    and "hex_digit (of_char c :: nat) = hex_digit (of_char d :: nat)"
  shows "c = d"
proof -
  let ?n = "of_char c :: nat" and ?m = "of_char d :: nat"
  have bound: "?n < 256" "?m < 256" by simp_all
  from hex_digit_inj [OF assms(1)] have "(?n div 16) mod 16 = (?m div 16) mod 16" .
  moreover from bound have "?n div 16 < 16" "?m div 16 < 16" by arith+
  ultimately have hi: "?n div 16 = ?m div 16" by simp
  from hex_digit_inj [OF assms(2)] have lo: "?n mod 16 = ?m mod 16" .
  have "?n = 16 * (?n div 16) + ?n mod 16" by simp
  also have "\<dots> = 16 * (?m div 16) + ?m mod 16" using hi lo by simp
  also have "\<dots> = ?m" by simp
  finally show "c = d" by simp
qed

lemma hex_digit_not_special:
  "hex_digit n \<noteq> CHR 0x22" "hex_digit n \<noteq> CHR 0x5C"
proof -
  have "hex_digit n \<in> set ''0123456789abcdef''"
    unfolding hex_digit_def by (rule nth_mem) simp
  then show "hex_digit n \<noteq> CHR 0x22" "hex_digit n \<noteq> CHR 0x5C"
    by auto
qed

lemma escape_char_head: "\<exists>a as. escape_char c = a # as \<and> a \<noteq> CHR 0x22"
  by (simp add: escape_char_def)

lemma escape_char_inj:
  assumes "escape_char c @ x = escape_char d @ y"
  shows "c = d \<and> x = y"
  using assms
  by (auto simp: escape_char_def split: if_splits dest: hex_pair_inj)

lemma escaped_inj:
  "concat (map escape_char s) @ CHR 0x22 # r = concat (map escape_char t) @ CHR 0x22 # r' \<Longrightarrow>
     s = t \<and> r = r'"
proof (induction s arbitrary: t)
  case Nil
  show ?case
  proof (cases t)
    case Nil
    with Nil.prems show ?thesis by simp
  next
    case (Cons d t')
    from escape_char_head [of d] obtain a as where "escape_char d = a # as" "a \<noteq> CHR 0x22"
      by blast
    with Nil.prems Cons show ?thesis by simp
  qed
next
  case (Cons c s)
  show ?case
  proof (cases t)
    case Nil
    from escape_char_head [of c] obtain a as where "escape_char c = a # as" "a \<noteq> CHR 0x22"
      by blast
    with Cons.prems Nil show ?thesis by simp
  next
    case (Cons d t')
    with Cons.prems
    have "escape_char c @ (concat (map escape_char s) @ CHR 0x22 # r) =
          escape_char d @ (concat (map escape_char t') @ CHR 0x22 # r')"
      by simp
    from escape_char_inj [OF this]
    have "c = d" and "concat (map escape_char s) @ CHR 0x22 # r =
          concat (map escape_char t') @ CHR 0x22 # r'"
      by simp_all
    with Cons.IH [of t'] Cons show ?thesis by simp
  qed
qed

lemma quote_inj: "quote s @ r = quote t @ r' \<Longrightarrow> s = t \<and> r = r'"
  using escaped_inj [of s r t r'] by (simp add: quote_def)

lemma quote_not_bracket: "\<exists>a as. quote s = a # as \<and> a \<noteq> CHR '']''"
  by (simp add: quote_def)

lemma quote_head: "\<exists>as. quote s = CHR 0x22 # as"
  by (simp add: quote_def)

lemma opt_text_inj:
  assumes "json_text (json_opt x) @ r = json_text (json_opt y) @ r'"
  shows "x = y \<and> r = r'"
proof (cases x)
  case None
  show ?thesis
  proof (cases y)
    case None
    with \<open>x = None\<close> assms show ?thesis by (simp add: json_opt_def)
  next
    case (Some t)
    from quote_head [of t] obtain as where "quote t = CHR 0x22 # as" ..
    with \<open>x = None\<close> Some assms show ?thesis by (simp add: json_opt_def)
  qed
next
  case (Some s)
  show ?thesis
  proof (cases y)
    case None
    from quote_head [of s] obtain as where "quote s = CHR 0x22 # as" ..
    with Some None assms show ?thesis by (simp add: json_opt_def)
  next
    case (Some t)
    with \<open>x = Some s\<close> assms quote_inj [of s r t r'] show ?thesis
      by (simp add: json_opt_def)
  qed
qed

lemma join_Cons:
  "join sep (x # xs) = x @ (if xs = [] then [] else sep @ join sep xs)"
  by (cases xs) simp_all

lemma join_inj:
  assumes inj: "\<And>x y r r'. f x @ r = f y @ r' \<Longrightarrow> x = y \<and> r = r'"
    and head: "\<And>x. \<exists>a as. f x = a # as \<and> a \<noteq> CHR '']''"
  shows "join '', '' (map f xs) @ CHR '']'' # r = join '', '' (map f ys) @ CHR '']'' # r' \<Longrightarrow>
           xs = ys \<and> r = r'"
proof (induction xs arbitrary: ys)
  case Nil
  show ?case
  proof (cases ys)
    case Nil
    with Nil.prems show ?thesis by simp
  next
    case (Cons y ys')
    from head [of y] obtain a as where "f y = a # as" "a \<noteq> CHR '']''" by blast
    with Nil.prems Cons show ?thesis by (simp add: join_Cons)
  qed
next
  case (Cons x xs)
  show ?case
  proof (cases ys)
    case Nil
    from head [of x] obtain a as where "f x = a # as" "a \<noteq> CHR '']''" by blast
    with Cons.prems Nil show ?thesis by (simp add: join_Cons)
  next
    case (Cons y ys')
    let ?R = "\<lambda>zs q. (if zs = [] then [] else '', '' @ join '', '' (map f zs)) @ CHR '']'' # q"
    from Cons.prems Cons have "f x @ ?R xs r = f y @ ?R ys' r'"
      by (simp add: join_Cons)
    from inj [OF this] have xy: "x = y" and rest: "?R xs r = ?R ys' r'"
      by simp_all
    have "xs = ys' \<and> r = r'"
    proof (cases "xs = []")
      case True
      with rest show ?thesis by (cases "ys' = []") simp_all
    next
      case False
      with rest have "ys' \<noteq> []" by (cases "ys' = []") simp_all
      with False rest have "join '', '' (map f xs) @ CHR '']'' # r =
          join '', '' (map f ys') @ CHR '']'' # r'"
        by simp
      then show ?thesis by (rule Cons.IH)
    qed
    with xy Cons show ?thesis by simp
  qed
qed

lemma roundtrip_opt: "json_roundtrip (json_opt x) = json_opt x"
  by (cases x) (simp_all add: json_opt_def)

lemma roundtrip_strs: "map json_roundtrip (map JStr xs) = map JStr xs"
  by (induction xs) simp_all

lemma text_strs: "map json_text (map JStr xs) = map quote xs"
  by (induction xs) simp_all

lemma roundtrip_track:
  "json_roundtrip (track_payload t) =
     JObj [(''album'', json_opt (album t)),
           (''artists'', JList (map JStr (artists t))),
           (''id'', JStr (track_id t)),
           (''isrc'', json_opt (isrc t)),
           (''title'', JStr (title t))]"
  unfolding track_payload_def json_roundtrip.simps list.map fst_conv snd_conv roundtrip_opt
    roundtrip_strs
  by simp

lemma track_text: "json_text (json_roundtrip (track_payload t)) = fields_text (digest_fields t)"
  unfolding roundtrip_track
  by (simp add: fields_text_def digest_fields_def comp_def)

lemma tracks_text:
  "json_dumps (tracks_payload A) =
     ''['' @ join '', '' (map fields_text (map digest_fields A)) @ '']''"
  by (simp add: json_dumps_def tracks_payload_def comp_def track_text)

lemma fields_text_head: "\<exists>a as. fields_text f = a # as \<and> a \<noteq> CHR '']''"
  by (cases f) (simp add: fields_text_def)

lemma fields_text_inj:
  assumes "fields_text f @ r = fields_text g @ r'"
  shows "f = g \<and> r = r'"
proof -
  obtain i t ars al isr where f: "f = (i, t, ars, al, isr)" by (cases f)
  obtain i' t' ars' al' isr' where g: "g = (i', t', ars', al', isr')" by (cases g)
  let ?K2 = "'', '' @ quote ''artists'' @ '': '' @ ''[''"
  let ?K3 = "'', '' @ quote ''id'' @ '': ''"
  let ?K4 = "'', '' @ quote ''isrc'' @ '': ''"
  let ?K5 = "'', '' @ quote ''title'' @ '': ''"
  let ?R5 = "\<lambda>t r. quote t @ (''}'' @ r)"
  let ?R4 = "\<lambda>isr t r. json_text (json_opt isr) @ (?K5 @ ?R5 t r)"
  let ?R3 = "\<lambda>i isr t r. quote i @ (?K4 @ ?R4 isr t r)"
  let ?R2 = "\<lambda>ars i isr t r. join '', '' (map quote ars) @ CHR '']'' # (?K3 @ ?R3 i isr t r)"
  let ?R1 = "\<lambda>al ars i isr t r. json_text (json_opt al) @ (?K2 @ ?R2 ars i isr t r)"
  from assms have "?R1 al ars i isr t r = ?R1 al' ars' i' isr' t' r'"
    unfolding f g fields_text_def by simp
  from opt_text_inj [OF this] have al: "al = al'"
    and "?K2 @ ?R2 ars i isr t r = ?K2 @ ?R2 ars' i' isr' t' r'"
    by blast+
  then have "?R2 ars i isr t r = ?R2 ars' i' isr' t' r'"
    by (simp only: same_append_eq)
  from join_inj [of quote, OF quote_inj quote_not_bracket this] have ars: "ars = ars'"
    and "?K3 @ ?R3 i isr t r = ?K3 @ ?R3 i' isr' t' r'"
    by blast+
  then have "?R3 i isr t r = ?R3 i' isr' t' r'"
    by (simp only: same_append_eq)
  from quote_inj [OF this] have i: "i = i'"
    and "?K4 @ ?R4 isr t r = ?K4 @ ?R4 isr' t' r'"
    by blast+
  then have "?R4 isr t r = ?R4 isr' t' r'"
    by (simp only: same_append_eq)
  from opt_text_inj [OF this] have isr: "isr = isr'"
    and "?K5 @ ?R5 t r = ?K5 @ ?R5 t' r'"
    by blast+
  then have "?R5 t r = ?R5 t' r'"
    by (simp only: same_append_eq)
  from quote_inj [OF this] have t: "t = t'" and "''}'' @ r = ''}'' @ r'"
    by blast+
  then have "r = r'" by simp
  with al ars i isr t f g show ?thesis by simp
qed

lemma dumps_inj:
  assumes "json_dumps (tracks_payload A) = json_dumps (tracks_payload B)"
  shows "map digest_fields A = map digest_fields B"
proof -
  from assms have "join '', '' (map fields_text (map digest_fields A)) @ CHR '']'' # [] =
      join '', '' (map fields_text (map digest_fields B)) @ CHR '']'' # []"
    by (simp add: tracks_text)
  from join_inj [of fields_text, OF fields_text_inj fields_text_head this]
  show ?thesis by simp
qed



lemma track_payload_fields:
  assumes "digest_fields a = digest_fields b"
  shows "track_payload a = track_payload b"
proof -
  from assms have "track_id a = track_id b" "title a = title b" "artists a = artists b"
    "album a = album b" "isrc a = isrc b"
    unfolding digest_fields_def by blast+
  then show ?thesis
    unfolding track_payload_def by (simp only:)
qed

lemma map_cong_fields:
  "map digest_fields A = map digest_fields B \<Longrightarrow> map track_payload A = map track_payload B"
proof (induction A arbitrary: B)
  case Nil
  then show ?case by simp
next
  case (Cons a A)
  from Cons.prems obtain b B' where B: "B = b # B'"
    by (cases B) simp_all
  from Cons.prems have hd: "digest_fields a = digest_fields b"
    and tl: "map digest_fields A = map digest_fields B'"
    unfolding B by simp_all
  from track_payload_fields [OF hd] Cons.IH [OF tl] show ?case
    unfolding B by (simp only: list.map)
qed

lemma digest_fields_eq:
  "map digest_fields A = map digest_fields B \<Longrightarrow> tracks_payload A = tracks_payload B"
  unfolding tracks_payload_def by (rule arg_cong [where f = JList]) (rule map_cong_fields)

lemma finite_digests: "finite (range (tracks_digest sha))"
proof -
  have "range (tracks_digest sha) \<subseteq> range hexdigest"
    by (auto simp: tracks_digest_def)
  moreover have "finite (range hexdigest)"
    by (rule finite_imageI) (rule finite)
  ultimately show ?thesis by (rule finite_subset)
qed

lemma numbered_fields:
  assumes "map digest_fields (numbered m) = map digest_fields (numbered n)"
  shows "m = n"
proof -
  from assms have "replicate m (CHR ''x'') = replicate n (CHR ''x'')"
    by (simp add: numbered_def digest_fields_def)
  then have "length (replicate m (CHR ''x'')) = length (replicate n (CHR ''x''))"
    by (rule arg_cong)
  then show "m = n" by (simp only: length_replicate)
qed



lemma hexdigest_nth:
  assumes "i < 64"
  shows "hexdigest w ! i = hex_digit (unat (drop_bit (4 * (63 - i)) w))"
proof -
  have "i < length [0..<64]" using assms by (simp del: upt_rec_numeral)
  then have "hexdigest w ! i = hex_digit (unat (drop_bit (4 * (63 - [0..<64] ! i)) w))"
    unfolding hexdigest_def by (rule nth_map)
  also have "[0..<64] ! i = i"
    using assms nth_upt [of 0 i 64] by (simp del: upt_rec_numeral)
  finally show ?thesis .
qed

lemma nibble_bit:
  fixes x :: "256 word"
  assumes "r < 4"
  shows "bit (unat (drop_bit (4 * q) x) mod 16) r \<longleftrightarrow> bit x (4 * q + r)"
proof -
  have "unat (drop_bit (4 * q) x) mod 16 = take_bit 4 (unat (drop_bit (4 * q) x))"
    by (simp add: take_bit_eq_mod)
  then have "bit (unat (drop_bit (4 * q) x) mod 16) r \<longleftrightarrow> bit (unat (drop_bit (4 * q) x)) r"
    using assms by (simp only: bit_take_bit_iff) simp
  also have "\<dots> \<longleftrightarrow> bit (drop_bit (4 * q) x) r"
    by (simp add: bit_unsigned_iff)
  also have "\<dots> \<longleftrightarrow> bit x (4 * q + r)"
    by (simp only: bit_drop_bit_eq comp_def)
  finally show ?thesis .
qed

lemma hexdigest_inj:
  assumes eq: "hexdigest v = hexdigest w"
  shows "v = w"
proof (rule bit_word_eqI)
  fix n assume "n < LENGTH(256)"
  then have n: "n < 256" by simp
  define q r where "q = n div 4" and "r = n mod 4"
  then have qr: "n = 4 * q + r" "r < 4" "q < 64"
    using n by auto
  from qr(3) have i: "63 - q < 64" and q: "63 - (63 - q) = q" by simp_all
  from eq have "hexdigest v ! (63 - q) = hexdigest w ! (63 - q)" by simp
  then have "hex_digit (unat (drop_bit (4 * q) v)) = hex_digit (unat (drop_bit (4 * q) w))"
    unfolding hexdigest_nth [OF i] q .
  then have "unat (drop_bit (4 * q) v) mod 16 = unat (drop_bit (4 * q) w) mod 16"
    by (rule hex_digit_inj)
  then have "bit (unat (drop_bit (4 * q) v) mod 16) r \<longleftrightarrow> bit (unat (drop_bit (4 * q) w) mod 16) r"
    by simp
  then show "bit v n \<longleftrightarrow> bit w n"
    unfolding nibble_bit [OF qr(2)] qr(1) .
qed

text \<open>
  Claim C4, as stated, makes the digests of two track lists differ whenever the lists
  differ in order or in one of the five fields. No hash with 256 bits does that, SHA-256
  included: the lists \<open>numbered n\<close> differ from one another in the id of their track, and
  there are more of them than digests.
\<close>

theorem digest_collision_counterexample:
  "\<not> (\<exists>sha. \<forall>A B. map digest_fields A \<noteq> map digest_fields B \<longrightarrow>
        tracks_digest sha A \<noteq> tracks_digest sha B)"
proof
  assume "\<exists>sha. \<forall>A B. map digest_fields A \<noteq> map digest_fields B \<longrightarrow>
        tracks_digest sha A \<noteq> tracks_digest sha B"
  then obtain sha where sep: "\<And>A B. map digest_fields A \<noteq> map digest_fields B \<Longrightarrow>
        tracks_digest sha A \<noteq> tracks_digest sha B"
    by blast
  have "inj (\<lambda>n. tracks_digest sha (numbered n))"
  proof (rule injI)
    fix m n assume eq: "tracks_digest sha (numbered m) = tracks_digest sha (numbered n)"
    have "map digest_fields (numbered m) = map digest_fields (numbered n)"
    proof (rule ccontr)
      assume "map digest_fields (numbered m) \<noteq> map digest_fields (numbered n)"
      from sep [OF this] eq show False by contradiction
    qed
    then show "m = n" by (rule numbered_fields)
  qed
  moreover have "finite (range (\<lambda>n. tracks_digest sha (numbered n)))"
    by (rule finite_subset [OF _ finite_digests [of sha]]) blast
  ultimately have "finite (UNIV :: nat set)"
    by (rule finite_imageD [rotated])
  then show False by simp
qed

text \<open>
  Claim C4, amended. The text that is hashed is the list, in source order, of one record
  per track with the five fields in the order of their names (album, artists, id, isrc,
  title). Two lists with the same fields in the same order have the same digest. Two
  lists that differ in order or in one of the fields have different texts, and two
  digests are equal exactly when SHA-256 gives the same value for the two texts: so the
  digests of such lists differ unless SHA-256 collides on them.
\<close>

theorem tracks_digest_separation:
  "json_dumps (tracks_payload A) =
     ''['' @ join '', '' (map fields_text (map digest_fields A)) @ '']'' \<and>
   (map digest_fields A = map digest_fields B \<longrightarrow> tracks_digest sha A = tracks_digest sha B) \<and>
   (map digest_fields A \<noteq> map digest_fields B \<longrightarrow>
      json_dumps (tracks_payload A) \<noteq> json_dumps (tracks_payload B)) \<and>
   (tracks_digest sha A = tracks_digest sha B \<longleftrightarrow>
      sha (json_dumps (tracks_payload A)) = sha (json_dumps (tracks_payload B)))"
proof (intro conjI impI)
  show "json_dumps (tracks_payload A) =
     ''['' @ join '', '' (map fields_text (map digest_fields A)) @ '']''"
    by (rule tracks_text)
next
  assume "map digest_fields A = map digest_fields B"
  then have "tracks_payload A = tracks_payload B" by (rule digest_fields_eq)
  then show "tracks_digest sha A = tracks_digest sha B"
    by (simp add: tracks_digest_def)
next
  assume differ: "map digest_fields A \<noteq> map digest_fields B"
  show "json_dumps (tracks_payload A) \<noteq> json_dumps (tracks_payload B)"
  proof
    assume "json_dumps (tracks_payload A) = json_dumps (tracks_payload B)"
    then have "map digest_fields A = map digest_fields B" by (rule dumps_inj)
    with differ show False by contradiction
  qed
next
  show "tracks_digest sha A = tracks_digest sha B \<longleftrightarrow>
      sha (json_dumps (tracks_payload A)) = sha (json_dumps (tracks_payload B))"
    unfolding tracks_digest_def
  proof
    assume "hexdigest (sha (json_dumps (tracks_payload A))) =
      hexdigest (sha (json_dumps (tracks_payload B)))"
    then show "sha (json_dumps (tracks_payload A)) = sha (json_dumps (tracks_payload B))"
      by (rule hexdigest_inj)
  next
    assume "sha (json_dumps (tracks_payload A)) = sha (json_dumps (tracks_payload B))"
    then show "hexdigest (sha (json_dumps (tracks_payload A))) =
      hexdigest (sha (json_dumps (tracks_payload B)))"
      by (rule arg_cong)
  qed
qed

text \<open>
  On the examples: \<open>song\<close> with another duration has the digest of \<open>song\<close>; the lists
  \<open>numbered 0\<close> and \<open>numbered 1\<close> differ in the id of their track, and so do their texts.
\<close>

theorem tracks_digest_separation_witness:
  "map digest_fields [song] = map digest_fields [song\<lparr>duration_ms := Some 5\<rparr>] \<and>
   tracks_digest length_hash [song] = tracks_digest length_hash [song\<lparr>duration_ms := Some 5\<rparr>] \<and>
   map digest_fields (numbered 0) \<noteq> map digest_fields (numbered 1) \<and>
   json_dumps (tracks_payload (numbered 0)) \<noteq> json_dumps (tracks_payload (numbered 1))"
proof -
  have same: "map digest_fields [song] = map digest_fields [song\<lparr>duration_ms := Some 5\<rparr>]"
    by (simp add: digest_fields_def)
  have differ: "map digest_fields (numbered 0) \<noteq> map digest_fields (numbered 1)"
    using numbered_fields [of 0 1] by auto
  from tracks_digest_separation [where A = "[song]" and B = "[song\<lparr>duration_ms := Some 5\<rparr>]"
      and sha = length_hash] same
  have c1: "tracks_digest length_hash [song] =
      tracks_digest length_hash [song\<lparr>duration_ms := Some 5\<rparr>]"
    by blast
  from tracks_digest_separation [where A = "numbered 0" and B = "numbered 1"
      and sha = length_hash] differ
  have c2: "json_dumps (tracks_payload (numbered 0)) \<noteq> json_dumps (tracks_payload (numbered 1))"
    by blast
  from same c1 differ c2 show ?thesis
    by (intro conjI)
qed

end
